theory Spec2Isabelle
  imports Main
begin

section \<open>Strings and formatting\<close>

text \<open>
  Go strings are byte sequences; \<open>len\<close> counts bytes.  They are modelled as
  \<open>string\<close> (a list of 8-bit characters).
\<close>

definition newline :: char where
  "newline = CHR 0x0A"

definition carriage_return :: char where
  "carriage_return = CHR 0x0D"

text \<open>\<open>strings.HasPrefix\<close> and \<open>strings.Contains\<close>.\<close>

fun HasPrefix :: "string \<Rightarrow> string \<Rightarrow> bool" where
  "HasPrefix s [] = True"
| "HasPrefix [] (p # ps) = False"
| "HasPrefix (c # s) (p # ps) = (c = p \<and> HasPrefix s ps)"

fun Contains :: "string \<Rightarrow> string \<Rightarrow> bool" where
  "Contains [] substr = (substr = [])"
| "Contains (c # s) substr = (if HasPrefix (c # s) substr then True else Contains s substr)"

text \<open>The verb \<open>%d\<close> of \<open>fmt\<close>: a decimal numeral, with a sign when negative.\<close>

definition digit_char :: "nat \<Rightarrow> char" where
  "digit_char d = ''0123456789'' ! d"

fun Itoa_nat :: "nat \<Rightarrow> string" where
  "Itoa_nat n = (if n < 10 then [digit_char n] else Itoa_nat (n div 10) @ [digit_char (n mod 10)])"

declare Itoa_nat.simps [simp del]

definition Itoa :: "int \<Rightarrow> string" where
  "Itoa i = (if i < 0 then CHR ''-'' # Itoa_nat (nat (- i)) else Itoa_nat (nat i))"

section \<open>The log file: \<open>os.File\<close>\<close>

text \<open>
  A regular file opened for reading: its bytes and the current offset of the handle.
  \<open>Seek\<close> follows \<open>lseek\<close>: the target is computed from the start
  (\<open>whence = 0\<close>), the current offset (\<open>1\<close>) or the end (\<open>2\<close>); a negative target is
  refused, and Go then returns offset 0 with the error; a target beyond the end is
  accepted.  \<open>Read\<close> returns up to the requested number of bytes, and \<open>io.EOF\<close> (the
  flag) when none is left.
\<close>

record os_file =
  contents :: string
  fpos :: nat

definition Seek :: "os_file \<Rightarrow> int \<Rightarrow> nat \<Rightarrow> os_file \<times> int \<times> string option" where
  "Seek f offset whence =
     (let target = (if whence = 0 then offset
                    else if whence = 1 then int (fpos f) + offset
                    else int (length (contents f)) + offset)
      in if target < 0 then (f, 0, Some ''invalid argument'')
         else (f\<lparr>fpos := nat target\<rparr>, target, None))"

definition Read :: "os_file \<Rightarrow> nat \<Rightarrow> os_file \<times> string \<times> bool" where
  "Read f n =
     (let bs = take n (drop (fpos f) (contents f))
      in (f\<lparr>fpos := fpos f + length bs\<rparr>, bs, bs = [] \<and> 0 < n))"

section \<open>\<open>bufio.Scanner\<close> with the split function \<open>ScanLines\<close>\<close>

text \<open>
  The scanner reads the file in chunks into a buffer that starts at 4096 bytes and
  doubles up to 64 KiB, and cuts lines out of the buffer.  The model keeps the length of
  the buffer, the index \<open>start\<close> and the bytes \<open>buf[start:end]\<close> that are held but not
  yet consumed; so \<open>end = start + length held\<close>.  The file offset therefore runs ahead of
  the lines returned: \<open>logScan\<close> reads it back with \<open>Seek(0, 1)\<close>.

  Left out, because \<open>ScanLines\<close> cannot trigger them: the flag \<open>done\<close> (set only for
  \<open>ErrFinalToken\<close>), the counter of empty tokens, and the range checks of \<open>advance\<close>
  (\<open>ScanLines_advance\<close> below: a token advances by at least one byte and by no more than
  is held).
\<close>

datatype scan_error = EOF | ErrTooLong | ErrNoProgress

record Scanner =
  s_r :: os_file
  s_buflen :: nat
  s_start :: nat
  s_held :: string
  s_token :: string
  s_err :: "scan_error option"

definition maxTokenSize :: nat where
  "maxTokenSize = 64 * 1024"

definition startBufSize :: nat where
  "startBufSize = 4096"

definition NewScanner :: "os_file \<Rightarrow> Scanner" where
  "NewScanner f = \<lparr>s_r = f, s_buflen = 0, s_start = 0, s_held = [], s_token = [], s_err = None\<rparr>"

fun IndexByte :: "string \<Rightarrow> char \<Rightarrow> nat option" where
  "IndexByte [] c = None"
| "IndexByte (x # xs) c = (if x = c then Some 0 else map_option Suc (IndexByte xs c))"

definition dropCR :: "string \<Rightarrow> string" where
  "dropCR d = (if d = [] then d else if last d = carriage_return then butlast d else d)"

text \<open>
  \<open>ScanLines data atEOF\<close> returns how far to advance and the token, if there is one
  (\<open>None\<close> is Go's nil token: more data is needed).  It never returns an error.
\<close>

definition ScanLines :: "string \<Rightarrow> bool \<Rightarrow> nat \<times> string option" where
  "ScanLines d atEOF =
     (if atEOF \<and> d = [] then (0, None)
      else case IndexByte d newline of
             Some i \<Rightarrow> (i + 1, Some (dropCR (take i d)))
           | None \<Rightarrow> if atEOF then (length d, Some (dropCR d)) else (0, None))"

text \<open>
  The blocks of \<open>Scanner.Scan\<close>.  \<open>scan_split\<close>: when bytes are held or an error is
  recorded, call the split function and advance.  \<open>scan_shift\<close>: move the held bytes to
  the front of the buffer when it is full or more than half is free at the front.
  \<open>scan_grow\<close>: a full buffer is doubled (4096 bytes at first), unless it has reached
  the maximal token size.  \<open>scan_read\<close>: read into the free part of the buffer; a
  read of no byte that is not the end of the file (the reader of a regular file gives
  one only for an empty slice) is repeated by Go up to 100 times and then recorded as
  \<open>io.ErrNoProgress\<close>.
\<close>

definition scan_split :: "Scanner \<Rightarrow> string option \<times> Scanner" where
  "scan_split s =
     (if s_held s = [] \<and> s_err s = None then (None, s)
      else case ScanLines (s_held s) (s_err s \<noteq> None) of
             (adv, Some tok) \<Rightarrow>
               (Some tok, s\<lparr>s_start := s_start s + adv, s_held := drop adv (s_held s), s_token := tok\<rparr>)
           | (adv, None) \<Rightarrow>
               (None, s\<lparr>s_start := s_start s + adv, s_held := drop adv (s_held s), s_token := []\<rparr>))"

definition scan_end :: "Scanner \<Rightarrow> nat" where
  "scan_end s = s_start s + length (s_held s)"

definition scan_shift :: "Scanner \<Rightarrow> Scanner" where
  "scan_shift s =
     (if 0 < s_start s \<and> (scan_end s = s_buflen s \<or> s_buflen s div 2 < s_start s)
      then s\<lparr>s_start := 0\<rparr> else s)"

definition scan_grow :: "Scanner \<Rightarrow> Scanner option" where
  "scan_grow s =
     (if scan_end s = s_buflen s then
        (if maxTokenSize \<le> s_buflen s then None
         else Some (s\<lparr>s_buflen := min (if s_buflen s * 2 = 0 then startBufSize else s_buflen s * 2) maxTokenSize,
                      s_start := 0\<rparr>))
      else Some s)"

definition scan_read :: "Scanner \<Rightarrow> Scanner" where
  "scan_read s =
     (case Read (s_r s) (s_buflen s - scan_end s) of
        (f, bs, eof) \<Rightarrow>
          s\<lparr>s_r := f, s_held := s_held s @ bs,
            s_err := (if eof then Some EOF else if bs = [] then Some ErrNoProgress else s_err s)\<rparr>)"

function Scan :: "Scanner \<Rightarrow> bool \<times> Scanner" where
  "Scan s =
     (case scan_split s of
        (Some tok, s1) \<Rightarrow> (True, s1)
      | (None, s1) \<Rightarrow>
          (if s_err s1 \<noteq> None then (False, s1\<lparr>s_start := 0, s_held := []\<rparr>)
           else (case scan_grow (scan_shift s1) of
                   None \<Rightarrow> (False, (scan_shift s1)\<lparr>s_err := Some ErrTooLong\<rparr>)
                 | Some s2 \<Rightarrow> Scan (scan_read s2))))"
  by pat_completeness auto

lemma IndexByte_less: "IndexByte d c = Some i \<Longrightarrow> i < length d"
  by (induction d arbitrary: i) (auto split: if_splits)

lemma scan_split_None: "scan_split s = (None, s1) \<Longrightarrow>
    s_r s1 = s_r s \<and> s_err s1 = s_err s \<and> s_buflen s1 = s_buflen s \<and> s_held s1 = s_held s"
  by (auto simp: scan_split_def ScanLines_def split: if_splits option.splits prod.splits)

lemma scan_shift_same: "s_r (scan_shift s) = s_r s \<and> s_err (scan_shift s) = s_err s \<and>
    s_held (scan_shift s) = s_held s \<and> s_buflen (scan_shift s) = s_buflen s"
  by (simp add: scan_shift_def)

lemma scan_shift_end: "scan_end (scan_shift s) \<le> scan_end s"
  by (simp add: scan_shift_def scan_end_def)

lemma scan_grow_same: "scan_grow s = Some s2 \<Longrightarrow>
    s_r s2 = s_r s \<and> s_err s2 = s_err s \<and> s_held s2 = s_held s"
  by (auto simp: scan_grow_def split: if_splits)

definition file_left :: "os_file \<Rightarrow> nat" where
  "file_left f = length (contents f) - fpos f"

lemma Read_left: "Read f n = (f', bs, eof) \<Longrightarrow>
    contents f' = contents f \<and> file_left f' + length bs = file_left f \<and>
    fpos f' = fpos f + length bs \<and> (eof \<longleftrightarrow> bs = [] \<and> 0 < n)"
  by (auto simp: Read_def Let_def file_left_def)

lemma scan_read_measure:
  assumes "s_err s = None"
  shows "2 * file_left (s_r (scan_read s)) + (if s_err (scan_read s) = None then 1 else 0)
       < 2 * file_left (s_r s) + 1"
proof (cases "Read (s_r s) (s_buflen s - scan_end s)")
  case (fields f bs eof)
  from Read_left [OF fields] have left: "file_left f + length bs = file_left (s_r s)"
    by simp
  have sr: "s_r (scan_read s) = f"
    and se: "s_err (scan_read s) = (if eof then Some EOF else if bs = [] then Some ErrNoProgress else None)"
    using fields assms by (simp_all add: scan_read_def)
  show ?thesis
  proof (cases "bs = []")
    case True
    then show ?thesis using left sr se by simp
  next
    case False
    then have "0 < length bs" by simp
    then have "file_left f < file_left (s_r s)" using left by arith
    then show ?thesis using sr by simp
  qed
qed

lemma scan_grow_room: "scan_grow s = Some s2 \<Longrightarrow> scan_end s \<le> s_buflen s \<Longrightarrow> scan_end s2 < s_buflen s2"
  by (auto simp: scan_grow_def scan_end_def maxTokenSize_def startBufSize_def split: if_splits)

lemma scan_end_le_split: "scan_split s = (None, s1) \<Longrightarrow> scan_end s1 = scan_end s"
  by (auto simp: scan_split_def ScanLines_def scan_end_def split: if_splits option.splits prod.splits)

termination Scan
proof (relation "measure (\<lambda>s. 2 * file_left (s_r s) + (if s_err s = None then 1 else 0))")
  show "wf (measure (\<lambda>s. 2 * file_left (s_r s) + (if s_err s = None then 1 else 0)))"
    by simp
next
  fix s :: Scanner and x s1 s2
  assume split: "(x, s1) = scan_split s"  "x = None"
    and noerr: "\<not> s_err s1 \<noteq> None"
    and grow: "scan_grow (scan_shift s1) = Some s2"
  from split have s1: "s_r s1 = s_r s" "s_err s1 = s_err s"
    using scan_split_None [of s s1] by simp_all
  from scan_grow_same [OF grow] have s2: "s_r s2 = s_r s" "s_err s2 = None"
    using s1 noerr by (simp_all add: scan_shift_same)
  from scan_read_measure [OF s2(2)] s2 s1 noerr
  show "(scan_read s2, s) \<in> measure (\<lambda>s. 2 * file_left (s_r s) + (if s_err s = None then 1 else 0))"
    by simp
qed

section \<open>The log forwarder\<close>

text \<open>
  \<open>LogForwardInfo\<close>: the JSON body of a request to \<open>/logs/<container>\<close>.
  Go's \<open>int64\<close> and \<open>int\<close> are modelled as \<open>int\<close>: the counters of a scan are
  bounded by the size of the file, far from 64-bit overflow.
\<close>

record LogForwardInfo =
  LastOffset :: int
  SizeLimit :: int
  SentinelledLogs :: bool
  EncodedLogLineMetadata :: string
  EncodedActivation :: string

record Config =
  TimeOps :: bool
  DockerSock :: string
  ContainerDir :: string
  OutputLogDir :: string
  InvokerAgentPort :: int
  LogSinkSize :: int

definition logSentinelLine :: string where
  "logSentinelLine = ''XXX_THE_END_OF_A_WHISK_ACTIVATION_XXX''"

definition truncatedLogMessage :: "int \<Rightarrow> string" where
  "truncatedLogMessage n =
     ''Logs were truncated because the total bytes size exceeds the limit of '' @ Itoa n @ '' bytes.''"

definition genericLogErrorMessage :: string where
  "genericLogErrorMessage = ''There was an issue while collecting your logs. Data might be missing.''"

text \<open>
  The channel \<open>logSinkChannel\<close> is modelled by the list of the lines sent on it so far,
  in order.  \<open>writeSyntheticLogLine\<close> reads the clock; the formatted time \<open>now\<close> is a
  parameter.  \<open>synthetic_line\<close> is the line it formats.
\<close>

definition synthetic_line :: "string \<Rightarrow> string \<Rightarrow> string \<Rightarrow> string" where
  \<open>synthetic_line now msg metadata =
     ''{"log":"'' @ msg @ ''", "stream":"stderr", "time":"'' @ now @ ''",'' @ metadata @ ''}''\<close>

definition writeSyntheticLogLine :: "string \<Rightarrow> string \<Rightarrow> string \<Rightarrow> string list \<Rightarrow> string list" where
  "writeSyntheticLogLine now msg metadata ch = ch @ [synthetic_line now msg metadata]"

text \<open>The local variables of \<open>logScan\<close>; the scanner holds the open log file.\<close>

record scan_state =
  scanner :: Scanner
  sentinelsLeft :: int
  bytesWritten :: int
  logSinkChannel :: "string list"

datatype 'a run = Done 'a | Panicked 'a

text \<open>
  The body of the loop, for the line the scanner has just produced.  The slice
  \<open>logLine[:logLineLen-1]\<close> of an empty line has the bound \<open>-1\<close>: Go panics.
\<close>

definition scan_line :: "LogForwardInfo \<Rightarrow> string \<Rightarrow> scan_state \<Rightarrow> scan_state run" where
  "scan_line lfi now st =
     (let logLine = s_token (scanner st) in
      if SentinelledLogs lfi \<and> Contains logLine logSentinelLine
      then Done (st\<lparr>sentinelsLeft := sentinelsLeft st - 1\<rparr>)
      else
        let logLineLen = int (length logLine);
            st1 = st\<lparr>bytesWritten := bytesWritten st + logLineLen\<rparr>
        in if logLineLen - 1 < 0 then Panicked st1
           else
             let mungedLine = take (nat (logLineLen - 1)) logLine @ '','' @ EncodedLogLineMetadata lfi @ ''}'';
                 st2 = st1\<lparr>logSinkChannel := logSinkChannel st1 @ [mungedLine]\<rparr>
             in if SizeLimit lfi < bytesWritten st2
                then Done (st2\<lparr>logSinkChannel :=
                                  writeSyntheticLogLine now (truncatedLogMessage (SizeLimit lfi))
                                    (EncodedLogLineMetadata lfi) (logSinkChannel st2),
                                scanner := (scanner st2)\<lparr>s_r := fst (Seek (s_r (scanner st2)) 0 2)\<rparr>,
                                sentinelsLeft := 0\<rparr>)
                else Done st2)"

function logScan_loop :: "LogForwardInfo \<Rightarrow> string \<Rightarrow> scan_state \<Rightarrow> scan_state run" where
  "logScan_loop lfi now st =
     (if 0 < sentinelsLeft st then
        (case Scan (scanner st) of
           (True, sc) \<Rightarrow>
             (case scan_line lfi now (st\<lparr>scanner := sc\<rparr>) of
                Done st' \<Rightarrow> logScan_loop lfi now st'
              | Panicked st' \<Rightarrow> Panicked st')
         | (False, sc) \<Rightarrow> Done (st\<lparr>scanner := sc\<rparr>))
      else Done st)"
  by pat_completeness auto

definition unread :: "Scanner \<Rightarrow> nat" where
  "unread s = length (s_held s) + file_left (s_r s)"

declare Scan.simps [simp del]

lemma ScanLines_advance: "ScanLines d atEOF = (adv, Some tok) \<Longrightarrow> 0 < adv \<and> adv \<le> length d"
  by (auto simp: ScanLines_def split: if_splits option.splits dest: IndexByte_less)

lemma scan_split_Some: "scan_split s = (Some tok, s1) \<Longrightarrow>
    s_r s1 = s_r s \<and> s_err s1 = s_err s \<and> s_buflen s1 = s_buflen s \<and> s_token s1 = tok \<and>
    length (s_held s1) < length (s_held s)"
  by (auto simp: scan_split_def split: if_splits option.splits prod.splits dest!: ScanLines_advance)

lemma unread_scan_read: "unread (scan_read s) = unread s"
proof (cases "Read (s_r s) (s_buflen s - scan_end s)")
  case (fields f bs eof)
  from Read_left [OF fields] show ?thesis
    using fields by (simp add: unread_def scan_read_def)
qed

lemma Scan_unread: "Scan s = (b, s') \<Longrightarrow> unread s' \<le> unread s \<and> (b \<longrightarrow> unread s' < unread s)"
proof (induction s arbitrary: b s' rule: Scan.induct)
  case (1 s)
  obtain x s1 where split: "scan_split s = (x, s1)" by (cases "scan_split s")
  show ?case
  proof (cases x)
    case (Some tok)
    with split "1.prems" have "b" "s' = s1" by (simp_all add: Scan.simps [of s])
    with scan_split_Some [of s tok s1] split Some show ?thesis by (simp add: unread_def)
  next
    case None
    with split scan_split_None [of s s1] have same: "unread s1 = unread s"
      by (simp add: unread_def)
    show ?thesis
    proof (cases "s_err s1 \<noteq> None")
      case True
      with split None "1.prems" have "\<not> b" "s' = s1\<lparr>s_start := 0, s_held := []\<rparr>"
        by (simp_all add: Scan.simps [of s])
      with same show ?thesis by (simp add: unread_def)
    next
      case False
      show ?thesis
      proof (cases "scan_grow (scan_shift s1)")
        case nogrow: None
        with split None False "1.prems"
        have "\<not> b" "s' = (scan_shift s1)\<lparr>s_err := Some ErrTooLong\<rparr>"
          by (simp_all add: Scan.simps [of s])
        with same show ?thesis by (simp add: unread_def scan_shift_same)
      next
        case (Some s2)
        with split None False "1.prems" have rec: "Scan (scan_read s2) = (b, s')"
          by (simp add: Scan.simps [of s])
        from scan_grow_same [OF Some] have "unread s2 = unread s1"
          by (simp add: unread_def scan_shift_same)
        with same unread_scan_read [of s2] have "unread (scan_read s2) = unread s" by simp
        with "1.IH" [OF split [symmetric] None False Some rec] show ?thesis by simp
      qed
    qed
  qed
qed

lemma scan_line_unread: "scan_line lfi now st = Done st' \<Longrightarrow> unread (scanner st') \<le> unread (scanner st)"
  by (auto simp: scan_line_def Let_def unread_def Seek_def file_left_def split: if_splits)

termination logScan_loop
proof (relation "measure (\<lambda>(lfi, now, st). unread (scanner st))")
  show "wf (measure (\<lambda>(lfi, now, st). unread (scanner st)))" by simp
next
  fix lfi :: LogForwardInfo and now :: string and st :: scan_state and x y st'
  assume scan: "(x, y) = Scan (scanner st)" "x = True"
    and line: "scan_line lfi now (st\<lparr>scanner := y\<rparr>) = Done st'"
  from Scan_unread [of "scanner st" x y] scan have "unread y < unread (scanner st)" by simp
  moreover from scan_line_unread [OF line] have "unread (scanner st') \<le> unread y" by simp
  ultimately show "((lfi, now, st'), lfi, now, st) \<in> measure (\<lambda>(lfi, now, st). unread (scanner st))"
    by simp
qed

declare logScan_loop.simps [simp del]

text \<open>
  The file system seen by \<open>os.Open\<close>: a path gives the error of the operating system
  or the bytes of a regular file.  The file is a snapshot: nothing is appended to it
  during one scan.  \<open>logScan\<close> returns the lines sent on the channel and
  \<open>(int64, error)\<close>, or panics.
\<close>

type_synonym filesystem = "string \<Rightarrow> string + string"

datatype 'a result = Ok 'a | Err string | Panic

definition logFileName :: "Config \<Rightarrow> string \<Rightarrow> string" where
  "logFileName l container = ContainerDir l @ ''/'' @ container @ ''/'' @ container @ ''-json.log''"

definition logScan ::
  "Config \<Rightarrow> filesystem \<Rightarrow> string \<Rightarrow> string \<Rightarrow> LogForwardInfo \<Rightarrow> string list \<Rightarrow> string list \<times> int result" where
  "logScan l fs now container lfi ch =
     (case fs (logFileName l container) of
        Inl e \<Rightarrow> (ch, Err (''Error opening '' @ logFileName l container @ '': '' @ e))
      | Inr bytes \<Rightarrow>
          (case Seek \<lparr>contents = bytes, fpos = 0\<rparr> (LastOffset lfi) 0 of
             (logFile, offset, err) \<Rightarrow>
               if offset \<noteq> LastOffset lfi \<or> err \<noteq> None
               then (ch, Err (''Unable to seek to '' @ Itoa (LastOffset lfi) @ '' in log file''))
               else
                 (case logScan_loop lfi now
                         \<lparr>scanner = NewScanner logFile, sentinelsLeft = 2, bytesWritten = 0,
                          logSinkChannel = ch\<rparr> of
                    Panicked st \<Rightarrow> (logSinkChannel st, Panic)
                  | Done st \<Rightarrow>
                      if SentinelledLogs lfi \<and> sentinelsLeft st \<noteq> 0
                      then (logSinkChannel st, Err ''Failed to find expected sentinels in log file'')
                      else
                        (case Seek (s_r (scanner st)) 0 1 of
                           (f, logFileOffset, err) \<Rightarrow>
                             (case err of
                                Some e \<Rightarrow>
                                  (logSinkChannel st @ [EncodedActivation lfi],
                                   Err (''Unable to determine current offset in log file: '' @ e))
                              | None \<Rightarrow>
                                  (logSinkChannel st @ [EncodedActivation lfi], Ok logFileOffset))))))"

subsection \<open>The request handler\<close>

text \<open>
  \<open>encoding/json\<close> is not part of the repository: its syntax check and its decoder are
  parameters.  \<open>json.Unmarshal\<close> first checks the syntax of the input, then refuses a
  nil pointer (\<open>InvalidUnmarshalError\<close>), and only then decodes into the value pointed
  to.  A pointer is modelled as an \<open>option\<close>, \<open>None\<close> for nil.
\<close>

record json_decoder =
  checkValid :: "string \<Rightarrow> string option"
  decode :: "string \<Rightarrow> LogForwardInfo \<Rightarrow> string + LogForwardInfo"

definition Unmarshal ::
  "json_decoder \<Rightarrow> string \<Rightarrow> LogForwardInfo option \<Rightarrow> string option \<times> LogForwardInfo option" where
  "Unmarshal J b v =
     (case checkValid J b of
        Some e \<Rightarrow> (Some e, v)
      | None \<Rightarrow>
          (case v of
             None \<Rightarrow> (Some ''json: Unmarshal(nil *main.LogForwardInfo)'', v)
           | Some x \<Rightarrow>
               (case decode J b x of
                  Inl e \<Rightarrow> (Some e, v)
                | Inr y \<Rightarrow> (None, Some y))))"

text \<open>
  A request: the container of the URL, and what \<open>ioutil.ReadAll\<close> gives for the body
  (an error, or the bytes).  A response: the status and the body written.
\<close>

record request =
  container_var :: string
  body :: "string + string"

record response =
  status :: int
  written :: string

text \<open>
  \<open>parseLogForwardInfo\<close> declares \<open>var lfi *LogForwardInfo\<close>, a nil pointer, and passes
  it to \<open>json.Unmarshal\<close>; it returns the pointer.
\<close>

definition parseLogForwardInfo :: "json_decoder \<Rightarrow> request \<Rightarrow> string + LogForwardInfo option" where
  "parseLogForwardInfo J r =
     (let lfi = None in
      case body r of
        Inl e \<Rightarrow> Inl (''Error reading request body: '' @ e)
      | Inr b \<Rightarrow>
          (case Unmarshal J b lfi of
             (Some e, lfi') \<Rightarrow> Inl (''Error unmarshalling request body: '' @ e)
           | (None, lfi') \<Rightarrow> Inr lfi'))"

definition reportLoggingError ::
  "string \<Rightarrow> int \<Rightarrow> string \<Rightarrow> string \<Rightarrow> string list \<Rightarrow> response \<times> string list" where
  "reportLoggingError now code msg metadata ch =
     (\<lparr>status = code, written = msg\<rparr>,
      if metadata \<noteq> [] then writeSyntheticLogLine now genericLogErrorMessage metadata ch else ch)"

text \<open>
  The handler after a successful parse (from the call of \<open>logScan\<close> on).  A panic of the
  scan leaves the request without a response (\<open>None\<close>).  \<open>now\<close> is the clock read
  during the scan, \<open>now'\<close> the one read when the error is reported.  The timing output
  on standard output is not modelled.
\<close>

definition forward_scanned ::
  "Config \<Rightarrow> filesystem \<Rightarrow> string \<Rightarrow> string \<Rightarrow> string \<Rightarrow> LogForwardInfo \<Rightarrow> string list
     \<Rightarrow> response option \<times> string list" where
  "forward_scanned l fs now now' container lfi ch =
     (case logScan l fs now container lfi ch of
        (ch1, Err e) \<Rightarrow>
          (case reportLoggingError now' 500 e (EncodedLogLineMetadata lfi) ch1 of
             (resp, ch2) \<Rightarrow> (Some resp, ch2 @ [EncodedActivation lfi]))
      | (ch1, Ok logFileOffset) \<Rightarrow> (Some \<lparr>status = 200, written = Itoa logFileOffset\<rparr>, ch1)
      | (ch1, Panic) \<Rightarrow> (None, ch1))"

text \<open>
  \<open>ForwardLogsFromUserAction\<close>.  A nil \<open>lfi\<close> returned without an error would be
  dereferenced (in \<open>logScan\<close>, or when the error of \<open>logScan\<close> is reported): a panic
  before anything is sent or written.
\<close>

definition ForwardLogsFromUserAction ::
  "Config \<Rightarrow> json_decoder \<Rightarrow> filesystem \<Rightarrow> string \<Rightarrow> string \<Rightarrow> request \<Rightarrow> string list
     \<Rightarrow> response option \<times> string list" where
  "ForwardLogsFromUserAction l J fs now now' r ch =
     (case parseLogForwardInfo J r of
        Inl err \<Rightarrow>
          (case reportLoggingError now' 400 err [] ch of (resp, ch') \<Rightarrow> (Some resp, ch'))
      | Inr None \<Rightarrow> (None, ch)
      | Inr (Some lfi) \<Rightarrow> forward_scanned l fs now now' (container_var r) lfi ch)"

subsection \<open>The sink writer\<close>

text \<open>
  The goroutine \<open>logWriter\<close> receives the lines of the channel one by one.  Its local
  state is the open sink file (\<open>None\<close> for nil; the handle is named by its path) and the
  bytes written to it; \<open>disk\<close> is the output directory, a map from paths to contents.
  Each iteration reads the clock (in milliseconds) when it creates a file, and the
  operating system may refuse to create or to write: these are the inputs \<open>write_env\<close>
  of the iteration.  \<open>os.Create\<close> truncates a file that exists.  A failure is a panic
  (\<open>None\<close>).
\<close>

record sink_state =
  sinkFile :: "string option"
  sinkFileBytes :: int
  disk :: "string \<Rightarrow> string option"

record write_env =
  now_ms :: int
  create_fails :: bool
  write_fails :: bool

definition sink_name :: "Config \<Rightarrow> int \<Rightarrow> string" where
  "sink_name l timestamp = OutputLogDir l @ ''/userlogs-'' @ Itoa timestamp @ ''.log''"

definition logWriter_step :: "Config \<Rightarrow> write_env \<Rightarrow> string \<Rightarrow> sink_state \<Rightarrow> sink_state option" where
  "logWriter_step l env line st =
     (case (case sinkFile st of
              None \<Rightarrow>
                if create_fails env then None
                else Some (sink_name l (now_ms env),
                           st\<lparr>sinkFile := Some (sink_name l (now_ms env)), sinkFileBytes := 0,
                              disk := (disk st)(sink_name l (now_ms env) \<mapsto> [])\<rparr>)
            | Some f \<Rightarrow> Some (f, st)) of
        None \<Rightarrow> None
      | Some (f, st1) \<Rightarrow>
          if write_fails env then None
          else
            let bytesWritten = int (length line) + 1;
                st2 = st1\<lparr>disk := (disk st1)(f \<mapsto> (case disk st1 f of None \<Rightarrow> [] | Some c \<Rightarrow> c) @ line @ [newline]),
                          sinkFileBytes := sinkFileBytes st1 + bytesWritten\<rparr>
            in if LogSinkSize l < sinkFileBytes st2 then Some (st2\<lparr>sinkFile := None\<rparr>) else Some st2)"

fun logWriter :: "Config \<Rightarrow> (write_env \<times> string) list \<Rightarrow> sink_state \<Rightarrow> sink_state option" where
  "logWriter l [] st = Some st"
| "logWriter l ((env, line) # rest) st =
     (case logWriter_step l env line st of
        None \<Rightarrow> None
      | Some st' \<Rightarrow> logWriter l rest st')"

definition sink_start :: sink_state where
  "sink_start = \<lparr>sinkFile = None, sinkFileBytes = 0, disk = Map.empty\<rparr>"

section \<open>The lines of a log file\<close>

text \<open>
  The notions in which the properties of a scan are stated.  \<open>stream\<close> is what a
  scanner has not consumed yet: the bytes it holds, then the bytes of the file from its
  offset on.  \<open>raw_lines\<close> cuts a byte sequence at the newlines (a last line without a
  newline counts); \<open>lines_of\<close> also drops a trailing carriage return, as \<open>ScanLines\<close>
  does.  \<open>scanner_ok\<close> is the invariant of the scanner's buffer and \<open>pos_ok\<close> the one
  of the file offset.  \<open>lines_fit\<close>: every line is shorter than the maximal token size.
  A line is a sentinel when the logs are sentinelled and it contains the marker;
  \<open>munge\<close> is the rewriting of a content line; \<open>content\<close> and \<open>sentinels\<close> select the
  lines of each kind and \<open>total_bytes\<close> adds up lengths.  \<open>forward_lines\<close> is the loop
  of \<open>logScan\<close> over a list of lines, with the way it ends; \<open>logScan_loop_lines\<close> below
  proves that the loop over the scanner computes it.  \<open>lines_consumed\<close> counts the lines
  the loop takes from the scanner, and \<open>line_end bytes off n\<close> is the byte position just
  after the \<open>n\<close>-th line from the offset \<open>off\<close>.
\<close>

definition stream :: "Scanner \<Rightarrow> string" where
  "stream s = s_held s @ drop (fpos (s_r s)) (contents (s_r s))"

definition first_line :: "string \<Rightarrow> string" where
  "first_line d = takeWhile (\<lambda>c. c \<noteq> newline) d"

definition rest_lines :: "string \<Rightarrow> string" where
  "rest_lines d = drop 1 (dropWhile (\<lambda>c. c \<noteq> newline) d)"

definition scanner_ok :: "Scanner \<Rightarrow> bool" where
  "scanner_ok s \<longleftrightarrow>
     scan_end s \<le> s_buflen s \<and> s_buflen s \<le> maxTokenSize \<and>
     (s_err s = None \<or> s_err s = Some EOF \<and> length (contents (s_r s)) \<le> fpos (s_r s))"

definition pos_ok :: "Scanner \<Rightarrow> bool" where
  "pos_ok s \<longleftrightarrow> s_held s = [] \<or> fpos (s_r s) \<le> length (contents (s_r s))"

lemma rest_lines_shorter:
  assumes "d \<noteq> []"
  shows "length (rest_lines d) < length d"
proof -
  have le: "length (dropWhile (\<lambda>c. c \<noteq> newline) d) \<le> length d" by (rule length_dropWhile_le)
  have "length (rest_lines d) = length (dropWhile (\<lambda>c. c \<noteq> newline) d) - 1"
    by (simp add: rest_lines_def)
  with le assms show ?thesis by (cases d) simp_all
qed

function raw_lines :: "string \<Rightarrow> string list" where
  "raw_lines d = (if d = [] then [] else first_line d # raw_lines (rest_lines d))"
  by pat_completeness auto

termination
  by (relation "measure length") (auto simp: rest_lines_shorter)

declare raw_lines.simps [simp del]

definition lines_of :: "string \<Rightarrow> string list" where
  "lines_of d = map dropCR (raw_lines d)"

definition is_sentinel :: "LogForwardInfo \<Rightarrow> string \<Rightarrow> bool" where
  "is_sentinel lfi x \<longleftrightarrow> SentinelledLogs lfi \<and> Contains x logSentinelLine"

definition munge :: "LogForwardInfo \<Rightarrow> string \<Rightarrow> string" where
  "munge lfi x = butlast x @ '','' @ EncodedLogLineMetadata lfi @ ''}''"

datatype ending = Stopped | Exhausted | Truncated | Crashed

fun forward_lines ::
  "LogForwardInfo \<Rightarrow> string \<Rightarrow> string list \<Rightarrow> int \<Rightarrow> int \<Rightarrow> string list \<Rightarrow> ending \<times> int \<times> int \<times> string list" where
  "forward_lines lfi now [] sl bw ch = (if 0 < sl then Exhausted else Stopped, sl, bw, ch)"
| "forward_lines lfi now (x # xs) sl bw ch =
     (if 0 < sl then
        (if is_sentinel lfi x then forward_lines lfi now xs (sl - 1) bw ch
         else if x = [] then (Crashed, sl, bw, ch)
         else if SizeLimit lfi < bw + int (length x)
           then (Truncated, 0, bw + int (length x),
                 writeSyntheticLogLine now (truncatedLogMessage (SizeLimit lfi))
                   (EncodedLogLineMetadata lfi) (ch @ [munge lfi x]))
           else forward_lines lfi now xs sl (bw + int (length x)) (ch @ [munge lfi x]))
      else (Stopped, sl, bw, ch))"

definition lines_fit :: "string \<Rightarrow> bool" where
  "lines_fit d \<longleftrightarrow> list_all (\<lambda>l. length l < maxTokenSize) (raw_lines d)"

definition scan_start :: "os_file \<Rightarrow> string list \<Rightarrow> scan_state" where
  "scan_start f ch = \<lparr>scanner = NewScanner f, sentinelsLeft = 2, bytesWritten = 0, logSinkChannel = ch\<rparr>"

definition content :: "LogForwardInfo \<Rightarrow> string list \<Rightarrow> string list" where
  "content lfi xs = filter (\<lambda>x. \<not> is_sentinel lfi x) xs"

definition sentinels :: "LogForwardInfo \<Rightarrow> string list \<Rightarrow> string list" where
  "sentinels lfi xs = filter (is_sentinel lfi) xs"

definition total_bytes :: "string list \<Rightarrow> int" where
  "total_bytes xs = sum_list (map (\<lambda>x. int (length x)) xs)"


definition line_end :: "string \<Rightarrow> nat \<Rightarrow> nat \<Rightarrow> nat" where
  "line_end bytes off n = off + (length (drop off bytes) - length ((rest_lines ^^ n) (drop off bytes)))"

text \<open>
  Concrete inputs: the default configuration of \<open>config.go\<close>, a file system holding the
  log of one container, and the scenario of the specification (two content lines, then
  two sentinel lines).
\<close>

definition cfg0 :: Config where
  "cfg0 = \<lparr>TimeOps = False, DockerSock = ''/var/run/docker.sock'', ContainerDir = ''/containers'',
     OutputLogDir = ''/action-logs'', InvokerAgentPort = 3233, LogSinkSize = 100 * 1024 * 1024\<rparr>"

definition one_log :: "string \<Rightarrow> string \<Rightarrow> filesystem" where
  "one_log container bytes =
     (\<lambda>p. if p = logFileName cfg0 container then Inr bytes
          else Inl (''open '' @ p @ '': no such file or directory''))"

definition scenario_file :: string where
  \<open>scenario_file =
     ''{"a":1}'' @ newline # ''{"a":2}'' @ newline # logSentinelLine @ newline # logSentinelLine @ [newline]\<close>

definition scenario_cursor :: LogForwardInfo where
  \<open>scenario_cursor = \<lparr>LastOffset = 0, SizeLimit = 1000, SentinelledLogs = True,
     EncodedLogLineMetadata = ''"foo":"bar"'', EncodedActivation = ''ACT1''\<rparr>\<close>

definition wrapped_sentinel :: string where
  \<open>wrapped_sentinel = ''{"log":"XXX_THE_END_OF_A_WHISK_ACTIVATION_XXX","stream":"stdout"}''\<close>

definition wrapped_file :: string where
  \<open>wrapped_file = ''{"a":1}'' @ newline # wrapped_sentinel @ newline # wrapped_sentinel @ [newline]\<close>

definition wrapped_state :: scan_state where
  "wrapped_state =
     \<lparr>scanner = (NewScanner \<lparr>contents = wrapped_file, fpos = 0\<rparr>)\<lparr>s_token := wrapped_sentinel\<rparr>,
      sentinelsLeft = 2, bytesWritten = 0, logSinkChannel = []\<rparr>"

definition empty_line_file :: string where
  \<open>empty_line_file = ''{"a":1}'' @ newline # newline # ''{"a":2}'' @ [newline]\<close>

definition one_sentinel_file :: string where
  \<open>one_sentinel_file = ''{"a":1}'' @ newline # ''{"a":2}'' @ newline # logSentinelLine @ [newline]\<close>

definition three_lines_file :: string where
  \<open>three_lines_file = ''{"a":1}'' @ newline # ''{"a":2}'' @ newline # ''{"a":3}'' @ [newline]\<close>

definition limit10_cursor :: LogForwardInfo where
  \<open>limit10_cursor = \<lparr>LastOffset = 0, SizeLimit = 10, SentinelledLogs = False,
     EncodedLogLineMetadata = ''"foo":"bar"'', EncodedActivation = ''ACT1''\<rparr>\<close>

definition one_line_file :: string where
  \<open>one_line_file = ''{"a":1}'' @ [newline]\<close>

definition limit1_cursor :: LogForwardInfo where
  \<open>limit1_cursor = \<lparr>LastOffset = 0, SizeLimit = 1, SentinelledLogs = True,
     EncodedLogLineMetadata = ''"foo":"bar"'', EncodedActivation = ''ACT1''\<rparr>\<close>

definition long_file :: string where
  \<open>long_file =
     wrapped_sentinel @ newline # wrapped_sentinel @ newline #
     ''{"log":"'' @ replicate 4100 CHR ''x'' @ ''"}'' @ [newline]\<close>

definition long_tail :: string where
  \<open>long_tail = replicate 144 CHR ''x'' @ ''"}''\<close>

definition lax_decoder :: json_decoder where
  "lax_decoder = \<lparr>checkValid = (\<lambda>b. None), decode = (\<lambda>b x. Inr x)\<rparr>"

definition scenario_request :: request where
  \<open>scenario_request =
     \<lparr>container_var = ''c1'',
      body = Inr ''{"lastOffset":0,"sizeLimit":1000,"sentinelledLogs":true,"encodedLogLineMetadata":"","encodedActivation":"ACT1"}''\<rparr>\<close>

definition sink_target :: "Config \<Rightarrow> write_env \<Rightarrow> sink_state \<Rightarrow> string" where
  "sink_target l env st = (case sinkFile st of None \<Rightarrow> sink_name l (now_ms env) | Some f \<Rightarrow> f)"

definition sink_before :: "sink_state \<Rightarrow> string" where
  "sink_before st =
     (case sinkFile st of None \<Rightarrow> [] | Some f \<Rightarrow> (case disk st f of None \<Rightarrow> [] | Some c \<Rightarrow> c))"

definition sink_inv :: "Config \<Rightarrow> sink_state \<Rightarrow> bool" where
  "sink_inv l st =
     (case sinkFile st of
        None \<Rightarrow> True
      | Some f \<Rightarrow>
          (\<exists>c. disk st f = Some c \<and> sinkFileBytes st = int (length c)) \<and>
          sinkFileBytes st \<le> LogSinkSize l)"

definition at_ms :: "int \<Rightarrow> write_env" where
  "at_ms t = \<lparr>now_ms = t, create_fails = False, write_fails = False\<rparr>"

section \<open>Properties of the scanner and of the loop\<close>

lemma IndexByte_None: "IndexByte d c = None \<longleftrightarrow> c \<notin> set d"
  by (induction d) auto

lemma IndexByte_Some: "IndexByte d c = Some i \<Longrightarrow>
    c \<in> set d \<and> i = length (takeWhile (\<lambda>x. x \<noteq> c) d) \<and> take i d = takeWhile (\<lambda>x. x \<noteq> c) d \<and>
    drop (i + 1) d = drop 1 (dropWhile (\<lambda>x. x \<noteq> c) d)"
  by (induction d arbitrary: i) (auto split: if_splits)

lemma first_line_in: "newline \<in> set d \<Longrightarrow> first_line (d @ t) = first_line d"
  by (simp add: first_line_def takeWhile_append1 [where P="\<lambda>c. c \<noteq> newline"] split: )

lemma rest_lines_in:
  assumes "newline \<in> set d"
  shows "rest_lines (d @ t) = rest_lines d @ t"
proof -
  from assms obtain y ys where dw: "dropWhile (\<lambda>c. c \<noteq> newline) d = y # ys"
    by (cases "dropWhile (\<lambda>c. c \<noteq> newline) d") auto
  from assms have "dropWhile (\<lambda>c. c \<noteq> newline) (d @ t) = dropWhile (\<lambda>c. c \<noteq> newline) d @ t"
    by (simp add: dropWhile_append1 [where P="\<lambda>c. c \<noteq> newline"])
  with dw show ?thesis by (simp add: rest_lines_def)
qed

lemma first_line_notin: "newline \<notin> set d \<Longrightarrow> first_line d = d \<and> rest_lines d = []"
proof -
  assume "newline \<notin> set d"
  then have all: "\<forall>x\<in>set d. x \<noteq> newline" by auto
  then have tw: "takeWhile (\<lambda>c. c \<noteq> newline) d = d"
    and dw: "dropWhile (\<lambda>c. c \<noteq> newline) d = []" by simp_all
  show ?thesis unfolding first_line_def rest_lines_def tw dw by simp
qed

lemma first_line_length_notin:
  assumes "newline \<notin> set d"
  shows "length d \<le> length (first_line (d @ t))"
proof -
  from assms have "takeWhile (\<lambda>c. c \<noteq> newline) (d @ t) = d @ takeWhile (\<lambda>c. c \<noteq> newline) t"
    by (intro takeWhile_append2) auto
  then show ?thesis by (simp add: first_line_def)
qed

lemma take_drop_length: "take n X @ drop (length (take n X)) X = X"
  by (cases "n \<le> length X") (simp_all add: min_def)

lemma Read_stream: "Read f n = (f', bs, eof) \<Longrightarrow>
    contents f' = contents f \<and> bs @ drop (fpos f') (contents f') = drop (fpos f) (contents f)"
proof -
  assume "Read f n = (f', bs, eof)"
  then have bs: "bs = take n (drop (fpos f) (contents f))"
    and f': "f' = f\<lparr>fpos := fpos f + length bs\<rparr>"
    by (auto simp: Read_def Let_def)
  have "drop (fpos f + length bs) (contents f) = drop (length bs) (drop (fpos f) (contents f))"
    by (simp add: add.commute)
  then show ?thesis using take_drop_length [of n "drop (fpos f) (contents f)"] bs f' by simp
qed

lemma stream_scan_read: "stream (scan_read s) = stream s"
proof (cases "Read (s_r s) (s_buflen s - scan_end s)")
  case (fields f bs eof)
  from Read_stream [OF fields] have c: "contents f = contents (s_r s)" by blast
  from Read_stream [OF fields]
  have "bs @ drop (fpos f) (contents f) = drop (fpos (s_r s)) (contents (s_r s))" by blast
  then show ?thesis
    using fields c by (simp add: stream_def scan_read_def)
qed

lemma scanner_ok_scan_read:
  assumes "scanner_ok s" "s_err s = None" "scan_end s < s_buflen s"
  shows "scanner_ok (scan_read s) \<and> (s_err (scan_read s) = None \<or> s_err (scan_read s) = Some EOF)"
proof (cases "Read (s_r s) (s_buflen s - scan_end s)")
  case (fields f bs eof)
  then have bs: "bs = take (s_buflen s - scan_end s) (drop (fpos (s_r s)) (contents (s_r s)))"
    and f: "f = (s_r s)\<lparr>fpos := fpos (s_r s) + length bs\<rparr>" and eof: "eof \<longleftrightarrow> bs = []"
    using assms(3) by (auto simp: Read_def Let_def)
  have len: "length bs \<le> s_buflen s - scan_end s" by (simp add: bs)
  have nil: "bs = [] \<Longrightarrow> length (contents (s_r s)) \<le> fpos (s_r s)"
    using assms(3) by (simp add: bs)
  have sr: "scan_read s = s\<lparr>s_r := f, s_held := s_held s @ bs,
      s_err := (if bs = [] then Some EOF else None)\<rparr>"
    using fields eof assms(2) by (simp add: scan_read_def)
  show ?thesis
  proof (cases "bs = []")
    case True
    with nil sr f assms(1) show ?thesis by (simp add: scanner_ok_def scan_end_def)
  next
    case False
    with sr f assms(1,3) len show ?thesis by (simp add: scanner_ok_def scan_end_def)
  qed
qed

lemma IndexByte_newline:
  assumes "IndexByte d newline = Some i"
  shows "newline \<in> set d" "take i d = first_line d" "drop (i + 1) d = rest_lines d"
  using IndexByte_Some [OF assms] unfolding first_line_def rest_lines_def by blast+

lemma scan_split_token:
  assumes ok: "scanner_ok s" and split: "scan_split s = (Some tok, s1)"
  shows "stream s \<noteq> [] \<and> tok = dropCR (first_line (stream s)) \<and> stream s1 = rest_lines (stream s) \<and>
         scanner_ok s1 \<and> s_token s1 = tok \<and> s_r s1 = s_r s"
proof -
  obtain adv where sl: "ScanLines (s_held s) (s_err s \<noteq> None) = (adv, Some tok)"
    and s1: "s1 = s\<lparr>s_start := s_start s + adv, s_held := drop adv (s_held s), s_token := tok\<rparr>"
    using split by (auto simp: scan_split_def split: if_splits prod.splits option.splits)
  from ScanLines_advance [OF sl] have adv: "0 < adv" "adv \<le> length (s_held s)" by simp_all
  then have held: "s_held s \<noteq> []" by auto
  have ok1: "scanner_ok s1" using ok adv by (simp add: s1 scanner_ok_def scan_end_def)
  show ?thesis
  proof (cases "IndexByte (s_held s) newline")
    case None
    with sl held have eof: "s_err s \<noteq> None" and a: "adv = length (s_held s)" and t: "tok = dropCR (s_held s)"
      by (auto simp: ScanLines_def split: if_splits)
    from eof ok have "drop (fpos (s_r s)) (contents (s_r s)) = []" by (auto simp: scanner_ok_def)
    then have st: "stream s = s_held s" by (simp add: stream_def)
    from None have "newline \<notin> set (s_held s)" by (simp add: IndexByte_None)
    from first_line_notin [OF this] st t a held ok1 show ?thesis
      by (simp add: s1 stream_def)
  next
    case (Some i)
    with sl held have a: "adv = i + 1" and t: "tok = dropCR (take i (s_held s))"
      by (auto simp: ScanLines_def split: if_splits)
    note nl = IndexByte_newline(1) [OF Some] and tk = IndexByte_newline(2) [OF Some]
      and dr = IndexByte_newline(3) [OF Some]
    from first_line_in [OF nl] rest_lines_in [OF nl] tk dr t a held ok1 show ?thesis
      by (simp add: s1 stream_def)
  qed
qed

lemma scan_split_none:
  assumes ok: "scanner_ok s" and split: "scan_split s = (None, s1)"
  shows "(s_err s \<noteq> None \<longrightarrow> stream s = []) \<and> (s_err s = None \<longrightarrow> newline \<notin> set (s_held s)) \<and>
         stream s1 = stream s \<and> scanner_ok s1 \<and> s_start s1 = s_start s"
proof (cases "s_held s = [] \<and> s_err s = None")
  case True
  with split show ?thesis using ok by (simp add: scan_split_def)
next
  case False
  then obtain adv where sl: "ScanLines (s_held s) (s_err s \<noteq> None) = (adv, None)"
    and s1: "s1 = s\<lparr>s_start := s_start s + adv, s_held := drop adv (s_held s), s_token := []\<rparr>"
    using split by (auto simp: scan_split_def split: if_splits prod.splits option.splits)
  from sl have a: "adv = 0" by (auto simp: ScanLines_def split: if_splits option.splits)
  from sl have e: "s_err s \<noteq> None \<Longrightarrow> s_held s = []"
    by (auto simp: ScanLines_def split: if_splits option.splits)
  from sl have n: "s_err s = None \<Longrightarrow> newline \<notin> set (s_held s)"
    by (auto simp: ScanLines_def IndexByte_None split: if_splits option.splits)
  have "s_err s \<noteq> None \<Longrightarrow> drop (fpos (s_r s)) (contents (s_r s)) = []"
    using ok by (auto simp: scanner_ok_def)
  with e have "s_err s \<noteq> None \<Longrightarrow> stream s = []" by (simp add: stream_def)
  with n a ok show ?thesis by (simp add: s1 stream_def scanner_ok_def scan_end_def)
qed

lemma scanner_ok_shift: "scanner_ok s \<Longrightarrow> scanner_ok (scan_shift s) \<and> stream (scan_shift s) = stream s"
  by (auto simp: scanner_ok_def scan_shift_def scan_end_def stream_def)

lemma scan_grow_ok:
  assumes "scanner_ok s" "scan_grow s = Some s2"
  shows "scanner_ok s2 \<and> scan_end s2 < s_buflen s2 \<and> stream s2 = stream s \<and> s_err s2 = s_err s"
  using assms
  by (auto simp: scanner_ok_def scan_grow_def scan_end_def stream_def maxTokenSize_def startBufSize_def
      split: if_splits)

lemma scan_grow_None:
  assumes "scanner_ok s" "scan_grow (scan_shift s) = None"
  shows "maxTokenSize \<le> length (s_held s)"
  using assms
  by (auto simp: scanner_ok_def scan_grow_def scan_shift_def scan_end_def split: if_splits)

lemma Scan_token:
  "scanner_ok s \<Longrightarrow> Scan s = (True, s') \<Longrightarrow>
     stream s \<noteq> [] \<and> s_token s' = dropCR (first_line (stream s)) \<and>
     stream s' = rest_lines (stream s) \<and> scanner_ok s'"
proof (induction s arbitrary: s' rule: Scan.induct)
  case (1 s)
  obtain x s1 where split: "scan_split s = (x, s1)" by (cases "scan_split s")
  show ?case
  proof (cases x)
    case (Some tok)
    with split "1.prems" have "s' = s1" by (simp add: Scan.simps [of s])
    with scan_split_token [OF "1.prems"(1)] split Some show ?thesis by simp
  next
    case None
    from scan_split_none [OF "1.prems"(1)] split None
    have s1: "stream s1 = stream s" "scanner_ok s1" by simp_all
    from split None "1.prems"(2) have noerr: "\<not> s_err s1 \<noteq> None"
      by (auto simp: Scan.simps [of s] split: if_splits)
    from split None noerr "1.prems"(2) obtain s2 where grow: "scan_grow (scan_shift s1) = Some s2"
      by (cases "scan_grow (scan_shift s1)") (auto simp: Scan.simps [of s])
    with split None noerr "1.prems"(2) have rec: "Scan (scan_read s2) = (True, s')"
      by (simp add: Scan.simps [of s])
    from scanner_ok_shift [OF s1(2)] scan_grow_ok [OF _ grow] noerr
    have s2: "scanner_ok s2" "scan_end s2 < s_buflen s2" "stream s2 = stream s1" "s_err s2 = None"
      by (simp_all add: scan_shift_same)
    from scanner_ok_scan_read [OF s2(1) s2(4) s2(2)] have "scanner_ok (scan_read s2)" by simp
    from "1.IH" [OF split [symmetric] None noerr grow this rec] s2(3) s1(1)
    show ?thesis by (simp add: stream_scan_read)
  qed
qed

lemma Scan_total:
  "scanner_ok s \<Longrightarrow> length (first_line (stream s)) < maxTokenSize \<Longrightarrow> fst (Scan s) = (stream s \<noteq> [])"
proof (induction s rule: Scan.induct)
  case (1 s)
  obtain x s1 where split: "scan_split s = (x, s1)" by (cases "scan_split s")
  show ?case
  proof (cases x)
    case (Some tok)
    with split have "Scan s = (True, s1)" by (simp add: Scan.simps [of s])
    with scan_split_token [OF "1.prems"(1)] split Some show ?thesis by simp
  next
    case None
    from scan_split_none [OF "1.prems"(1)] split None
    have s1: "stream s1 = stream s" "scanner_ok s1" "s_err s \<noteq> None \<longrightarrow> stream s = []"
      "s_err s = None \<longrightarrow> newline \<notin> set (s_held s)" by simp_all
    from scan_split_None [of s s1] split None
    have same: "s_err s1 = s_err s" "s_held s1 = s_held s" by simp_all
    show ?thesis
    proof (cases "s_err s1 \<noteq> None")
      case True
      with split None have "Scan s = (False, s1\<lparr>s_start := 0, s_held := []\<rparr>)"
        by (simp add: Scan.simps [of s])
      with True s1(3) same show ?thesis by simp
    next
      case False
      with s1(4) same have nonl: "newline \<notin> set (s_held s)" by simp
      have "scan_grow (scan_shift s1) \<noteq> None"
      proof
        assume "scan_grow (scan_shift s1) = None"
        from scan_grow_None [OF s1(2) this] same have "maxTokenSize \<le> length (s_held s)" by simp
        also from first_line_length_notin [OF nonl]
        have "length (s_held s) \<le> length (first_line (stream s))" by (simp add: stream_def)
        finally show False using "1.prems"(2) by simp
      qed
      then obtain s2 where grow: "scan_grow (scan_shift s1) = Some s2" by auto
      with split None False have rec: "Scan s = Scan (scan_read s2)"
        by (simp add: Scan.simps [of s])
      from scanner_ok_shift [OF s1(2)] scan_grow_ok [OF _ grow] False
      have s2: "scanner_ok s2" "scan_end s2 < s_buflen s2" "stream s2 = stream s1" "s_err s2 = None"
        by (simp_all add: scan_shift_same)
      from scanner_ok_scan_read [OF s2(1) s2(4) s2(2)] have ok: "scanner_ok (scan_read s2)" by simp
      have st: "stream (scan_read s2) = stream s" using s2(3) s1(1) by (simp add: stream_scan_read)
      from "1.IH" [OF split [symmetric] None False grow ok] "1.prems"(2) st rec
      show ?thesis by simp
    qed
  qed
qed

lemma scan_read_pos:
  "contents (s_r (scan_read s)) = contents (s_r s) \<and> fpos (s_r s) \<le> fpos (s_r (scan_read s)) \<and>
   fpos (s_r (scan_read s)) \<le> max (fpos (s_r s)) (length (contents (s_r s))) \<and>
   (s_held s = [] \<or> fpos (s_r s) \<le> length (contents (s_r s)) \<longrightarrow>
      s_held (scan_read s) = [] \<or> fpos (s_r (scan_read s)) \<le> length (contents (s_r s)))"
  by (auto simp: scan_read_def Read_def Let_def)

lemma Scan_pos:
  "Scan s = (b, s') \<Longrightarrow>
     contents (s_r s') = contents (s_r s) \<and> fpos (s_r s) \<le> fpos (s_r s') \<and>
     fpos (s_r s') \<le> max (fpos (s_r s)) (length (contents (s_r s))) \<and>
     (pos_ok s \<longrightarrow> pos_ok s')"
proof (induction s arbitrary: b s' rule: Scan.induct)
  case (1 s)
  obtain x s1 where split: "scan_split s = (x, s1)" by (cases "scan_split s")
  show ?case
  proof (cases x)
    case (Some tok)
    with split "1.prems" have "s' = s1" by (simp add: Scan.simps [of s])
    moreover from split Some have "s_held s = [] \<Longrightarrow> s_held s1 = []"
      by (auto simp: scan_split_def split: if_splits prod.splits option.splits)
    ultimately show ?thesis using scan_split_Some [of s tok s1] split Some
      by (auto simp: pos_ok_def)
  next
    case None
    note same = scan_split_None [of s s1]
    show ?thesis
    proof (cases "s_err s1 \<noteq> None")
      case True
      with split None "1.prems" have "s' = s1\<lparr>s_start := 0, s_held := []\<rparr>"
        by (simp add: Scan.simps [of s])
      with same split None show ?thesis by (simp add: pos_ok_def)
    next
      case False
      show ?thesis
      proof (cases "scan_grow (scan_shift s1)")
        case nogrow: None
        with split None False "1.prems" have "s' = (scan_shift s1)\<lparr>s_err := Some ErrTooLong\<rparr>"
          by (simp add: Scan.simps [of s])
        with same split None show ?thesis by (simp add: scan_shift_same pos_ok_def)
      next
        case (Some s2)
        with split None False "1.prems" have rec: "Scan (scan_read s2) = (b, s')"
          by (simp add: Scan.simps [of s])
        from scan_grow_same [OF Some] same split None
        have s2: "s_r s2 = s_r s" "s_held s2 = s_held s" by (simp_all add: scan_shift_same)
        from scan_read_pos [of s2] s2 have
          "contents (s_r (scan_read s2)) = contents (s_r s)"
          "fpos (s_r s) \<le> fpos (s_r (scan_read s2))"
          "fpos (s_r (scan_read s2)) \<le> max (fpos (s_r s)) (length (contents (s_r s)))"
          "pos_ok s \<longrightarrow> pos_ok (scan_read s2)"
          by (simp_all add: pos_ok_def)
        with "1.IH" [OF split [symmetric] None False Some rec] show ?thesis by auto
      qed
    qed
  qed
qed

lemma Scan_True_pos:
  assumes "pos_ok s" "Scan s = (True, s')"
  shows "fpos (s_r s') \<le> length (contents (s_r s))"
proof -
  from Scan_unread [OF assms(2)] have "0 < unread s" by simp
  then have "s_held s \<noteq> [] \<or> fpos (s_r s) < length (contents (s_r s))"
    by (auto simp: unread_def file_left_def)
  with assms(1) have "fpos (s_r s) \<le> length (contents (s_r s))" by (auto simp: pos_ok_def)
  with Scan_pos [OF assms(2)] show ?thesis by simp
qed


lemma forward_lines_stopped: "\<not> 0 < sl \<Longrightarrow> forward_lines lfi now xs sl bw ch = (Stopped, sl, bw, ch)"
  by (cases xs) simp_all

lemma scan_line_token:
  "scan_line lfi now st =
     (let x = s_token (scanner st) in
      if is_sentinel lfi x then Done (st\<lparr>sentinelsLeft := sentinelsLeft st - 1\<rparr>)
      else if x = [] then Panicked st
      else if SizeLimit lfi < bytesWritten st + int (length x)
        then Done (st\<lparr>bytesWritten := bytesWritten st + int (length x),
                     logSinkChannel := writeSyntheticLogLine now (truncatedLogMessage (SizeLimit lfi))
                        (EncodedLogLineMetadata lfi) (logSinkChannel st @ [munge lfi x]),
                     scanner := (scanner st)\<lparr>s_r := (s_r (scanner st))\<lparr>fpos := length (contents (s_r (scanner st)))\<rparr>\<rparr>,
                     sentinelsLeft := 0\<rparr>)
        else Done (st\<lparr>bytesWritten := bytesWritten st + int (length x),
                     logSinkChannel := logSinkChannel st @ [munge lfi x]\<rparr>))"
proof -
  have b: "take (nat (int (length x) - 1)) x = butlast x" for x :: string
    by (simp add: butlast_conv_take nat_diff_distrib')
  show ?thesis
    by (auto simp: scan_line_def Let_def is_sentinel_def munge_def b Seek_def)
qed

lemma lines_fit_step:
  assumes "lines_fit d" "d \<noteq> []"
  shows "length (first_line d) < maxTokenSize" "lines_fit (rest_lines d)"
  using assms by (simp_all add: lines_fit_def raw_lines.simps [of d])

lemma lines_of_step: "d \<noteq> [] \<Longrightarrow> lines_of d = dropCR (first_line d) # lines_of (rest_lines d)"
  by (simp add: lines_of_def raw_lines.simps [of d])

lemma lines_of_Nil: "lines_of [] = []"
  by (simp add: lines_of_def raw_lines.simps [of "[]"])

lemma logScan_loop_stop: "\<not> 0 < sentinelsLeft st \<Longrightarrow> logScan_loop lfi now st = Done st"
  by (simp add: logScan_loop.simps [of lfi now st])

lemma logScan_loop_lines:
  "scanner_ok (scanner st) \<Longrightarrow> lines_fit (stream (scanner st)) \<Longrightarrow>
   forward_lines lfi now (lines_of (stream (scanner st))) (sentinelsLeft st) (bytesWritten st)
     (logSinkChannel st) = (e, sl, bw, ch) \<Longrightarrow>
   \<exists>sc. logScan_loop lfi now st =
           (if e = Crashed then Panicked else Done)
             (st\<lparr>scanner := sc, sentinelsLeft := sl, bytesWritten := bw, logSinkChannel := ch\<rparr>) \<and>
         contents (s_r sc) = contents (s_r (scanner st)) \<and>
         (e = Truncated \<longrightarrow> fpos (s_r sc) = length (contents (s_r sc))) \<and>
         (e = Exhausted \<longrightarrow> length (contents (s_r sc)) \<le> fpos (s_r sc))"
proof (induction lfi now st arbitrary: e sl bw ch rule: logScan_loop.induct)
  case (1 lfi now st)
  let ?d = "stream (scanner st)"
  show ?case
  proof (cases "0 < sentinelsLeft st")
    case False
    with "1.prems"(3) have "e = Stopped" "sl = sentinelsLeft st" "bw = bytesWritten st"
      "ch = logSinkChannel st" by (simp_all add: forward_lines_stopped)
    moreover from False have "logScan_loop lfi now st = Done st"
      by (simp add: logScan_loop.simps [of lfi now st])
    ultimately show ?thesis by (intro exI [of _ "scanner st"]) simp
  next
    case True
    show ?thesis
    proof (cases "?d = []")
      case empty: True
      with "1.prems"(3) True have res: "e = Exhausted" "sl = sentinelsLeft st" "bw = bytesWritten st"
        "ch = logSinkChannel st" by (simp_all add: lines_of_Nil)
      from empty have "length (first_line ?d) < maxTokenSize"
        by (simp add: first_line_def maxTokenSize_def)
      from Scan_total [OF "1.prems"(1) this] empty obtain sc where scan: "Scan (scanner st) = (False, sc)"
        by (cases "Scan (scanner st)") auto
      from empty have "length (contents (s_r (scanner st))) \<le> fpos (s_r (scanner st))"
        by (simp add: stream_def)
      with Scan_pos [OF scan] have "contents (s_r sc) = contents (s_r (scanner st))"
        "length (contents (s_r sc)) \<le> fpos (s_r sc)" by simp_all
      moreover from scan True have "logScan_loop lfi now st = Done (st\<lparr>scanner := sc\<rparr>)"
        by (simp add: logScan_loop.simps [of lfi now st])
      ultimately show ?thesis using res by (intro exI [of _ sc]) simp
    next
      case nonempty: False
      note fit = lines_fit_step [OF "1.prems"(2) nonempty]
      from Scan_total [OF "1.prems"(1) fit(1)] nonempty obtain sc where scan: "Scan (scanner st) = (True, sc)"
        by (cases "Scan (scanner st)") auto
      from Scan_token [OF "1.prems"(1) scan]
      have tok: "s_token sc = dropCR (first_line ?d)" and rest: "stream sc = rest_lines ?d"
        and ok: "scanner_ok sc" by simp_all
      from Scan_pos [OF scan] have cont: "contents (s_r sc) = contents (s_r (scanner st))" by simp
      let ?x = "dropCR (first_line ?d)"
      let ?st = "st\<lparr>scanner := sc\<rparr>"
      have lines: "lines_of ?d = ?x # lines_of (stream sc)"
        using lines_of_step [OF nonempty] rest by simp
      have loop: "logScan_loop lfi now st =
          (case scan_line lfi now ?st of Done st' \<Rightarrow> logScan_loop lfi now st' | Panicked st' \<Rightarrow> Panicked st')"
        using scan True by (simp add: logScan_loop.simps [of lfi now st])
      note IH = "1.IH" [OF True scan [symmetric] refl]
      show ?thesis
      proof (cases "is_sentinel lfi ?x")
        case sent: True
        let ?st' = "?st\<lparr>sentinelsLeft := sentinelsLeft st - 1\<rparr>"
        from sent tok have line: "scan_line lfi now ?st = Done ?st'"
          by (simp add: scan_line_token Let_def)
        from "1.prems"(3) lines True sent
        have fw: "forward_lines lfi now (lines_of (stream (scanner ?st'))) (sentinelsLeft ?st')
            (bytesWritten ?st') (logSinkChannel ?st') = (e, sl, bw, ch)" by simp
        from IH [OF line _ _ fw] ok fit(2) rest cont loop line show ?thesis by auto
      next
        case content: False
        show ?thesis
        proof (cases "?x = []")
          case True
          with content tok have line: "scan_line lfi now ?st = Panicked ?st"
            by (simp add: scan_line_token Let_def)
          from "1.prems"(3) lines \<open>0 < sentinelsLeft st\<close> content True
          have "e = Crashed" "sl = sentinelsLeft st" "bw = bytesWritten st" "ch = logSinkChannel st"
            by simp_all
          with loop line cont show ?thesis by (intro exI [of _ sc]) simp
        next
          case False
          show ?thesis
          proof (cases "SizeLimit lfi < bytesWritten st + int (length ?x)")
            case over: True
            let ?f = "(s_r sc)\<lparr>fpos := length (contents (s_r sc))\<rparr>"
            let ?st' = "?st\<lparr>bytesWritten := bytesWritten st + int (length ?x),
                logSinkChannel := writeSyntheticLogLine now (truncatedLogMessage (SizeLimit lfi))
                   (EncodedLogLineMetadata lfi) (logSinkChannel st @ [munge lfi ?x]),
                scanner := sc\<lparr>s_r := ?f\<rparr>, sentinelsLeft := 0\<rparr>"
            from content False over tok have line: "scan_line lfi now ?st = Done ?st'"
              by (simp add: scan_line_token Let_def)
            have stop: "logScan_loop lfi now ?st' = Done ?st'"
              by (rule logScan_loop_stop) simp
            from "1.prems"(3) lines \<open>0 < sentinelsLeft st\<close> content False over
            have "e = Truncated" "sl = 0" "bw = bytesWritten st + int (length ?x)"
              "ch = writeSyntheticLogLine now (truncatedLogMessage (SizeLimit lfi))
                   (EncodedLogLineMetadata lfi) (logSinkChannel st @ [munge lfi ?x])"
              by simp_all
            with loop line stop cont show ?thesis by (intro exI [of _ "sc\<lparr>s_r := ?f\<rparr>"]) simp
          next
            case under: False
            let ?st' = "?st\<lparr>bytesWritten := bytesWritten st + int (length ?x),
                logSinkChannel := logSinkChannel st @ [munge lfi ?x]\<rparr>"
            from content False under tok have line: "scan_line lfi now ?st = Done ?st'"
              by (simp add: scan_line_token Let_def)
            from "1.prems"(3) lines \<open>0 < sentinelsLeft st\<close> content False under
            have fw: "forward_lines lfi now (lines_of (stream (scanner ?st'))) (sentinelsLeft ?st')
                (bytesWritten ?st') (logSinkChannel ?st') = (e, sl, bw, ch)" by simp
            from IH [OF line _ _ fw] ok fit(2) rest cont loop line show ?thesis by auto
          qed
        qed
      qed
    qed
  qed
qed

lemma scan_line_pos:
  assumes "scan_line lfi now st = Done st' \<or> scan_line lfi now st = Panicked st'"
  shows "contents (s_r (scanner st')) = contents (s_r (scanner st)) \<and>
         s_held (scanner st') = s_held (scanner st) \<and>
         (fpos (s_r (scanner st')) = fpos (s_r (scanner st)) \<or>
          fpos (s_r (scanner st')) = length (contents (s_r (scanner st))))"
  using assms by (auto simp: scan_line_token Let_def split: if_splits)

lemma logScan_loop_pos:
  "pos_ok (scanner st) \<Longrightarrow> logScan_loop lfi now st = Done st' \<or> logScan_loop lfi now st = Panicked st' \<Longrightarrow>
     contents (s_r (scanner st')) = contents (s_r (scanner st)) \<and>
     fpos (s_r (scanner st)) \<le> fpos (s_r (scanner st')) \<and>
     fpos (s_r (scanner st')) \<le> max (fpos (s_r (scanner st))) (length (contents (s_r (scanner st))))"
proof (induction lfi now st arbitrary: st' rule: logScan_loop.induct)
  case (1 lfi now st)
  show ?case
  proof (cases "0 < sentinelsLeft st")
    case False
    with "1.prems"(2) show ?thesis by (simp add: logScan_loop_stop)
  next
    case True
    obtain b sc where scan: "Scan (scanner st) = (b, sc)" by (cases "Scan (scanner st)")
    note pos = Scan_pos [OF scan]
    show ?thesis
    proof (cases b)
      case False
      with scan True "1.prems"(2) have "st' = st\<lparr>scanner := sc\<rparr>"
        by (auto simp: logScan_loop.simps [of lfi now st])
      with pos show ?thesis by simp
    next
      case b: True
      from Scan_True_pos [OF "1.prems"(1)] scan b
      have le: "fpos (s_r sc) \<le> length (contents (s_r (scanner st)))" by simp
      from pos "1.prems"(1) have ok: "pos_ok sc" by simp
      let ?st = "st\<lparr>scanner := sc\<rparr>"
      have loop: "logScan_loop lfi now st =
          (case scan_line lfi now ?st of Done st' \<Rightarrow> logScan_loop lfi now st' | Panicked st' \<Rightarrow> Panicked st')"
        using scan True b by (simp add: logScan_loop.simps [of lfi now st])
      show ?thesis
      proof (cases "scan_line lfi now ?st")
        case (Panicked st1)
        with loop "1.prems"(2) have "st' = st1" by simp
        with scan_line_pos [of lfi now ?st st1] Panicked pos le show ?thesis by auto
      next
        case (Done st1)
        with loop "1.prems"(2) have rec: "logScan_loop lfi now st1 = Done st' \<or> logScan_loop lfi now st1 = Panicked st'"
          by simp
        from scan_line_pos [of lfi now ?st st1] Done
        have l1: "contents (s_r (scanner st1)) = contents (s_r sc)" "s_held (scanner st1) = s_held sc"
          "fpos (s_r (scanner st1)) = fpos (s_r sc) \<or> fpos (s_r (scanner st1)) = length (contents (s_r sc))"
          by simp_all
        with ok have ok1: "pos_ok (scanner st1)" by (auto simp: pos_ok_def)
        from "1.IH" [OF True scan [symmetric] _ Done ok1 rec] b
        have "contents (s_r (scanner st')) = contents (s_r (scanner st1))"
          "fpos (s_r (scanner st1)) \<le> fpos (s_r (scanner st'))"
          "fpos (s_r (scanner st')) \<le> max (fpos (s_r (scanner st1))) (length (contents (s_r (scanner st1))))"
          by simp_all
        with l1 pos le show ?thesis by auto
      qed
    qed
  qed
qed

lemma Scan_NewScanner:
  "Scan (NewScanner f) = Scan (scan_read ((NewScanner f)\<lparr>s_buflen := startBufSize\<rparr>))"
  by (subst Scan.simps)
     (simp add: NewScanner_def scan_split_def scan_shift_def scan_grow_def scan_end_def
        maxTokenSize_def startBufSize_def)

lemma Scan_fresh_pos:
  assumes "Scan (NewScanner f) = (b, s')"
  shows "min (length (contents f)) (fpos f + startBufSize) \<le> fpos (s_r s')"
proof -
  let ?s = "scan_read ((NewScanner f)\<lparr>s_buflen := startBufSize\<rparr>)"
  from assms have "Scan ?s = (b, s')" by (simp add: Scan_NewScanner)
  from Scan_pos [OF this] have "fpos (s_r ?s) \<le> fpos (s_r s')" by simp
  moreover have "min (length (contents f)) (fpos f + startBufSize) \<le> fpos (s_r ?s)"
    by (auto simp: scan_read_def Read_def Let_def NewScanner_def scan_end_def)
  ultimately show ?thesis by simp
qed

lemma logScan_loop_fresh:
  assumes "logScan_loop lfi now (scan_start f ch) = Done st'"
  shows "fpos f \<le> fpos (s_r (scanner st'))"
    and "fpos (s_r (scanner st')) \<le> max (fpos f) (length (contents f))"
    and "min (length (contents f)) (fpos f + startBufSize) \<le> fpos (s_r (scanner st'))"
proof -
  let ?st = "scan_start f ch"
  have ok: "pos_ok (scanner ?st)" by (simp add: pos_ok_def scan_start_def NewScanner_def)
  have f: "s_r (scanner ?st) = f" by (simp add: scan_start_def NewScanner_def)
  from logScan_loop_pos [OF ok, of lfi now st'] assms f
  show "fpos f \<le> fpos (s_r (scanner st'))"
    and "fpos (s_r (scanner st')) \<le> max (fpos f) (length (contents f))" by simp_all
  obtain b sc where scan: "Scan (NewScanner f) = (b, sc)" by (cases "Scan (NewScanner f)")
  note low = Scan_fresh_pos [OF scan]
  from Scan_pos [OF scan] ok have sc: "contents (s_r sc) = contents f" "pos_ok sc"
    by (simp_all add: scan_start_def NewScanner_def)
  show "min (length (contents f)) (fpos f + startBufSize) \<le> fpos (s_r (scanner st'))"
  proof (cases b)
    case False
    with scan assms have "st' = ?st\<lparr>scanner := sc\<rparr>"
      by (simp add: logScan_loop.simps [of lfi now ?st]) (simp add: scan_start_def)
    with low show ?thesis by simp
  next
    case True
    let ?s1 = "?st\<lparr>scanner := sc\<rparr>"
    from scan True assms have loop:
      "(case scan_line lfi now ?s1 of Done st1 \<Rightarrow> logScan_loop lfi now st1 | Panicked st1 \<Rightarrow> Panicked st1) = Done st'"
      by (simp add: logScan_loop.simps [of lfi now ?st]) (simp add: scan_start_def)
    then obtain st1 where line: "scan_line lfi now ?s1 = Done st1" and rec: "logScan_loop lfi now st1 = Done st'"
      by (cases "scan_line lfi now ?s1") auto
    from scan_line_pos [of lfi now ?s1 st1] line sc
    have l1: "contents (s_r (scanner st1)) = contents f" "s_held (scanner st1) = s_held sc"
      "fpos (s_r (scanner st1)) = fpos (s_r sc) \<or> fpos (s_r (scanner st1)) = length (contents f)"
      by simp_all
    with sc have ok1: "pos_ok (scanner st1)" by (auto simp: pos_ok_def)
    from logScan_loop_pos [OF ok1, of lfi now st'] rec
    have "fpos (s_r (scanner st1)) \<le> fpos (s_r (scanner st'))" by simp
    with l1(3) low show ?thesis by auto
  qed
qed

lemma logScan_unfold:
  assumes "fs (logFileName l container) = Inr bytes" "0 \<le> LastOffset lfi"
  shows "logScan l fs now container lfi ch =
     (case logScan_loop lfi now (scan_start \<lparr>contents = bytes, fpos = nat (LastOffset lfi)\<rparr> ch) of
        Panicked st \<Rightarrow> (logSinkChannel st, Panic)
      | Done st \<Rightarrow>
          if SentinelledLogs lfi \<and> sentinelsLeft st \<noteq> 0
          then (logSinkChannel st, Err ''Failed to find expected sentinels in log file'')
          else (logSinkChannel st @ [EncodedActivation lfi], Ok (int (fpos (s_r (scanner st))))))"
  using assms by (simp add: logScan_def Seek_def Let_def scan_start_def split: run.split)

lemma logScan_lines:
  assumes op: "fs (logFileName l container) = Inr bytes" and off: "0 \<le> LastOffset lfi"
    and fit: "lines_fit (drop (nat (LastOffset lfi)) bytes)"
    and fw: "forward_lines lfi now (lines_of (drop (nat (LastOffset lfi)) bytes)) 2 0 ch = (e, sl, bw, ch')"
  shows "\<exists>r. logScan l fs now container lfi ch =
           (if e = Crashed then (ch', Panic)
            else if SentinelledLogs lfi \<and> sl \<noteq> 0
              then (ch', Err ''Failed to find expected sentinels in log file'')
              else (ch' @ [EncodedActivation lfi], Ok r)) \<and>
          LastOffset lfi \<le> r \<and> r \<le> max (LastOffset lfi) (int (length bytes)) \<and>
          (e = Truncated \<longrightarrow> r = int (length bytes)) \<and>
          (e = Exhausted \<longrightarrow> int (length bytes) \<le> r) \<and>
          (int (length bytes) \<le> LastOffset lfi + int startBufSize \<longrightarrow> int (length bytes) \<le> r)"
proof -
  let ?f = "\<lparr>contents = bytes, fpos = nat (LastOffset lfi)\<rparr>"
  let ?st = "scan_start ?f ch"
  have ok: "scanner_ok (scanner ?st)"
    by (simp add: scanner_ok_def scan_start_def NewScanner_def scan_end_def)
  have st: "stream (scanner ?st) = drop (nat (LastOffset lfi)) bytes"
    by (simp add: stream_def scan_start_def NewScanner_def)
  have init: "sentinelsLeft ?st = 2" "bytesWritten ?st = 0" "logSinkChannel ?st = ch"
    by (simp_all add: scan_start_def)
  from logScan_loop_lines [OF ok, of lfi now e sl bw ch'] fit fw st init
  obtain sc where loop: "logScan_loop lfi now ?st =
        (if e = Crashed then Panicked else Done)
          (?st\<lparr>scanner := sc, sentinelsLeft := sl, bytesWritten := bw, logSinkChannel := ch'\<rparr>)"
    and c: "contents (s_r sc) = bytes"
    and t: "e = Truncated \<longrightarrow> fpos (s_r sc) = length bytes"
    and x: "e = Exhausted \<longrightarrow> length bytes \<le> fpos (s_r sc)"
    by (auto simp: scan_start_def NewScanner_def)
  let ?r = "int (fpos (s_r sc))"
  show ?thesis
  proof (cases "e = Crashed")
    case True
    with loop logScan_unfold [where fs=fs and l=l and container=container and now=now and ch=ch, OF op off] have "logScan l fs now container lfi ch = (ch', Panic)"
      by simp
    with True off show ?thesis by (intro exI [of _ "max (LastOffset lfi) (int (length bytes))"]) auto
  next
    case False
    with loop have d: "logScan_loop lfi now ?st =
        Done (?st\<lparr>scanner := sc, sentinelsLeft := sl, bytesWritten := bw, logSinkChannel := ch'\<rparr>)"
      by simp
    from logScan_loop_fresh [OF d] off
    have p: "LastOffset lfi \<le> ?r" "?r \<le> max (LastOffset lfi) (int (length bytes))"
      "min (length bytes) (nat (LastOffset lfi) + startBufSize) \<le> fpos (s_r sc)"
      by simp_all
    show ?thesis
    proof (cases "SentinelledLogs lfi \<and> sl \<noteq> 0")
      case True
      with d False logScan_unfold [where fs=fs and l=l and container=container and now=now and ch=ch, OF op off]
      have "logScan l fs now container lfi ch = (ch', Err ''Failed to find expected sentinels in log file'')"
        by simp
      with True False p t x off show ?thesis
        by (intro exI [of _ ?r]) auto
    next
      case noerr: False
      with d False logScan_unfold [where fs=fs and l=l and container=container and now=now and ch=ch, OF op off]
      have "logScan l fs now container lfi ch = (ch' @ [EncodedActivation lfi], Ok ?r)"
        by auto
      with noerr False p t x off show ?thesis
        by (intro exI [of _ ?r]) auto
    qed
  qed
qed

lemma raw_lines_Nil: "raw_lines [] = []"
  by (simp add: raw_lines.simps [of "[]"])

lemma raw_lines_append:
  assumes "newline \<notin> set l"
  shows "raw_lines (l @ newline # t) = l # raw_lines t"
proof -
  from assms have all: "\<And>x. x \<in> set l \<Longrightarrow> x \<noteq> newline" by auto
  have "takeWhile (\<lambda>c. c \<noteq> newline) (l @ newline # t) = l @ takeWhile (\<lambda>c. c \<noteq> newline) (newline # t)"
    using all by (rule takeWhile_append2)
  then have f: "first_line (l @ newline # t) = l" by (simp add: first_line_def)
  have "dropWhile (\<lambda>c. c \<noteq> newline) (l @ newline # t) = dropWhile (\<lambda>c. c \<noteq> newline) (newline # t)"
    using all by (rule dropWhile_append2)
  then have r: "rest_lines (l @ newline # t) = t" by (simp add: rest_lines_def)
  show ?thesis by (subst raw_lines.simps) (simp add: f r)
qed

lemma raw_lines_last:
  assumes "newline \<notin> set l" "l \<noteq> []"
  shows "raw_lines l = [l]"
  using first_line_notin [OF assms(1)] assms(2)
  by (subst raw_lines.simps) (simp add: raw_lines_Nil)

lemma raw_lines_length: "l \<in> set (raw_lines d) \<Longrightarrow> length l \<le> length d"
proof (induction d rule: raw_lines.induct)
  case (1 d)
  show ?case
  proof (cases "d = []")
    case True
    with "1.prems" show ?thesis by (simp add: raw_lines_Nil)
  next
    case False
    with "1.prems" have "l = first_line d \<or> l \<in> set (raw_lines (rest_lines d))"
      by (simp add: raw_lines.simps [of d])
    then show ?thesis
    proof
      assume "l = first_line d"
      then show ?thesis by (simp add: first_line_def length_takeWhile_le)
    next
      assume "l \<in> set (raw_lines (rest_lines d))"
      from "1.IH" [OF False this] rest_lines_shorter [OF False] show ?thesis by simp
    qed
  qed
qed

lemma lines_fit_small: "length d < maxTokenSize \<Longrightarrow> lines_fit d"
  unfolding lines_fit_def list_all_iff using raw_lines_length [of _ d] by fastforce

lemma total_bytes_nonneg: "0 \<le> total_bytes xs"
  by (induction xs) (simp_all add: total_bytes_def)

lemma forward_lines_prefix:
  "int (length (sentinels lfi pre)) < sl \<Longrightarrow> [] \<notin> set (content lfi pre) \<Longrightarrow>
   bw + total_bytes (content lfi pre) \<le> SizeLimit lfi \<Longrightarrow>
   forward_lines lfi now (pre @ rest) sl bw ch =
     forward_lines lfi now rest (sl - int (length (sentinels lfi pre))) (bw + total_bytes (content lfi pre))
       (ch @ map (munge lfi) (content lfi pre))"
proof (induction pre arbitrary: sl bw ch)
  case Nil
  then show ?case by (simp add: sentinels_def content_def total_bytes_def)
next
  case (Cons x pre)
  from Cons.prems(1) have pos: "0 < sl" by simp
  show ?case
  proof (cases "is_sentinel lfi x")
    case True
    then have eqs: "sl - 1 - int (length (sentinels lfi pre)) = sl - int (length (sentinels lfi (x # pre)))"
      "content lfi (x # pre) = content lfi pre"
      by (simp_all add: sentinels_def content_def)
    have step: "forward_lines lfi now ((x # pre) @ rest) sl bw ch =
        forward_lines lfi now (pre @ rest) (sl - 1) bw ch"
      using True pos by simp
    have "forward_lines lfi now (pre @ rest) (sl - 1) bw ch =
        forward_lines lfi now rest (sl - 1 - int (length (sentinels lfi pre)))
          (bw + total_bytes (content lfi pre)) (ch @ map (munge lfi) (content lfi pre))"
      using Cons.prems eqs by (intro Cons.IH) simp_all
    with step show ?thesis by (simp only: eqs)
  next
    case False
    then have eqs: "sentinels lfi (x # pre) = sentinels lfi pre"
      "content lfi (x # pre) = x # content lfi pre"
      by (simp_all add: sentinels_def content_def)
    have tb: "total_bytes (x # content lfi pre) = int (length x) + total_bytes (content lfi pre)"
      by (simp add: total_bytes_def)
    from Cons.prems eqs have x: "x \<noteq> []" and nil: "[] \<notin> set (content lfi pre)"
      and sent: "int (length (sentinels lfi pre)) < sl"
      and tot: "(bw + int (length x)) + total_bytes (content lfi pre) \<le> SizeLimit lfi"
      by (auto simp: tb)
    from tot total_bytes_nonneg [of "content lfi pre"] have under: "\<not> SizeLimit lfi < bw + int (length x)"
      by simp
    have step: "forward_lines lfi now ((x # pre) @ rest) sl bw ch =
        forward_lines lfi now (pre @ rest) sl (bw + int (length x)) (ch @ [munge lfi x])"
      using False pos x under by simp
    from Cons.IH [OF sent nil tot] step show ?thesis
      by (simp add: eqs tb add.assoc)
  qed
qed

lemma logScan_loop_panic:
  "scanner_ok (scanner st) \<Longrightarrow> logScan_loop lfi now st = Panicked st' \<Longrightarrow>
     [] \<in> set (lines_of (stream (scanner st)))"
proof (induction lfi now st rule: logScan_loop.induct)
  case (1 lfi now st)
  from "1.prems"(2) have pos: "0 < sentinelsLeft st"
    by (cases "0 < sentinelsLeft st") (simp_all add: logScan_loop_stop)
  obtain b sc where scan: "Scan (scanner st) = (b, sc)" by (cases "Scan (scanner st)")
  with pos "1.prems"(2) have b: "b" by (cases b) (simp_all add: logScan_loop.simps [of lfi now st])
  from Scan_token [OF "1.prems"(1)] scan b
  have ne: "stream (scanner st) \<noteq> []" and tok: "s_token sc = dropCR (first_line (stream (scanner st)))"
    and rest: "stream sc = rest_lines (stream (scanner st))" and ok: "scanner_ok sc" by simp_all
  have lines: "lines_of (stream (scanner st)) = s_token sc # lines_of (stream sc)"
    using lines_of_step [OF ne] tok rest by simp
  let ?st = "st\<lparr>scanner := sc\<rparr>"
  have loop: "logScan_loop lfi now st =
      (case scan_line lfi now ?st of Done st1 \<Rightarrow> logScan_loop lfi now st1 | Panicked st1 \<Rightarrow> Panicked st1)"
    using scan pos b by (simp add: logScan_loop.simps [of lfi now st])
  show ?case
  proof (cases "scan_line lfi now ?st")
    case (Panicked st1)
    then have "s_token sc = []" by (auto simp: scan_line_token Let_def split: if_splits)
    with lines show ?thesis by simp
  next
    case (Done st1)
    with loop "1.prems"(2) have rec: "logScan_loop lfi now st1 = Panicked st'" by simp
    then have "0 < sentinelsLeft st1"
      by (cases "0 < sentinelsLeft st1") (simp_all add: logScan_loop_stop)
    with Done have "scanner st1 = sc" by (auto simp: scan_line_token Let_def split: if_splits)
    with "1.IH" [OF pos scan [symmetric] _ Done _ rec] b ok lines show ?thesis by simp
  qed
qed

lemma raw_lines_Cons:
  "raw_lines (c # t) =
     (if c = newline then [] # raw_lines t
      else case raw_lines t of [] \<Rightarrow> [c] # [] | l # ls \<Rightarrow> (c # l) # ls)"
proof (cases "c = newline")
  case True
  then show ?thesis by (subst raw_lines.simps) (simp add: first_line_def rest_lines_def)
next
  case False
  then have f: "first_line (c # t) = c # first_line t" and r: "rest_lines (c # t) = rest_lines t"
    by (simp_all add: first_line_def rest_lines_def)
  show ?thesis
  proof (cases "t = []")
    case True
    with False show ?thesis
      by (subst raw_lines.simps) (simp add: first_line_def rest_lines_def raw_lines_Nil)
  next
    case nonempty: False
    then have "raw_lines t = first_line t # raw_lines (rest_lines t)"
      by (subst raw_lines.simps) simp
    with False f r show ?thesis by (subst raw_lines.simps) simp
  qed
qed

lemmas lines_eval = lines_of_def raw_lines_Cons raw_lines_Nil newline_def logSentinelLine_def
  dropCR_def carriage_return_def

lemma Contains_self: "Contains logSentinelLine logSentinelLine"
  by (simp add: logSentinelLine_def)

lemma one_log_open: "one_log c bytes (logFileName cfg0 c) = Inr bytes"
  by (simp add: one_log_def)

section \<open>Facts about the concrete inputs and the formatting functions\<close>

lemma scenario_length: "length scenario_file = 92"
  by (simp add: scenario_file_def logSentinelLine_def)

lemma scenario_lines:
  \<open>lines_of scenario_file = [''{"a":1}'', ''{"a":2}'', logSentinelLine, logSentinelLine]\<close>
  by (simp add: scenario_file_def lines_eval)

lemma scenario_forward:
  \<open>forward_lines scenario_cursor now (lines_of scenario_file) 2 0 ch =
     (Stopped, 0, 14, ch @ [''{"a":1,"foo":"bar"}'', ''{"a":2,"foo":"bar"}''])\<close>
  by (simp add: scenario_lines is_sentinel_def scenario_cursor_def Contains_self munge_def)
     (simp add: logSentinelLine_def)

lemma HasPrefix_iff: "HasPrefix s p \<longleftrightarrow> (\<exists>b. s = p @ b)"
  by (induction s p rule: HasPrefix.induct) auto

lemma Contains_iff: "Contains s sub \<longleftrightarrow> (\<exists>a b. s = a @ sub @ b)"
proof (induction s)
  case Nil
  then show ?case by auto
next
  case (Cons c s)
  show ?case
  proof
    assume "Contains (c # s) sub"
    then consider "HasPrefix (c # s) sub" | "Contains s sub" by (auto split: if_splits)
    then show "\<exists>a b. c # s = a @ sub @ b"
    proof cases
      case 1
      then obtain b where "c # s = sub @ b" by (auto simp: HasPrefix_iff)
      then have "c # s = [] @ sub @ b" by simp
      then show ?thesis by blast
    next
      case 2
      with Cons.IH obtain a b where "s = a @ sub @ b" by auto
      then have "c # s = (c # a) @ sub @ b" by simp
      then show ?thesis by blast
    qed
  next
    assume "\<exists>a b. c # s = a @ sub @ b"
    then obtain a b where ab: "c # s = a @ sub @ b" by auto
    show "Contains (c # s) sub"
    proof (cases a)
      case Nil
      with ab have "HasPrefix (c # s) sub" by (auto simp: HasPrefix_iff)
      then show ?thesis by simp
    next
      case (Cons x a')
      with ab have "s = a' @ sub @ b" by simp
      with Cons.IH have "Contains s sub" by auto
      then show ?thesis by simp
    qed
  qed
qed

lemma Contains_wrapped: "Contains wrapped_sentinel logSentinelLine"
  by (simp add: wrapped_sentinel_def logSentinelLine_def)

lemma wrapped_lines: \<open>lines_of wrapped_file = [''{"a":1}'', wrapped_sentinel, wrapped_sentinel]\<close>
  by (simp add: wrapped_file_def wrapped_sentinel_def lines_eval)

lemma wrapped_length: "length wrapped_file = 140"
  by (simp add: wrapped_file_def wrapped_sentinel_def)

lemma scan_line_content:
  assumes "\<not> is_sentinel lfi (s_token (scanner st))"
  shows "scan_line lfi now st \<noteq> Done (st\<lparr>sentinelsLeft := sentinelsLeft st - 1\<rparr>)"
proof
  assume eq: "scan_line lfi now st = Done (st\<lparr>sentinelsLeft := sentinelsLeft st - 1\<rparr>)"
  let ?x = "s_token (scanner st)"
  from eq assms have ne: "?x \<noteq> []" by (auto simp: scan_line_token Let_def)
  from eq assms ne have
    "logSinkChannel (st\<lparr>sentinelsLeft := sentinelsLeft st - 1\<rparr>) = logSinkChannel st @ [munge lfi ?x] \<or>
     logSinkChannel (st\<lparr>sentinelsLeft := sentinelsLeft st - 1\<rparr>) =
       writeSyntheticLogLine now (truncatedLogMessage (SizeLimit lfi)) (EncodedLogLineMetadata lfi)
         (logSinkChannel st @ [munge lfi ?x])"
    by (auto simp: scan_line_token Let_def split: if_splits dest: arg_cong [where f = logSinkChannel])
  then show False by (auto simp: writeSyntheticLogLine_def)
qed

lemma Unmarshal_nil: "\<exists>e. Unmarshal J b None = (Some e, None)"
  by (auto simp: Unmarshal_def split: option.splits)

lemma empty_not_sentinel: "\<not> is_sentinel lfi []"
  by (simp add: is_sentinel_def logSentinelLine_def)

lemma logScan_panic_line:
  assumes "logScan l fs now container lfi ch = (ch', Panic)"
  shows "\<exists>bytes. fs (logFileName l container) = Inr bytes \<and>
           [] \<in> set (lines_of (drop (nat (LastOffset lfi)) bytes))"
proof (cases "fs (logFileName l container)")
  case (Inl e)
  with assms show ?thesis by (simp add: logScan_def)
next
  case (Inr bytes)
  show ?thesis
  proof (cases "0 \<le> LastOffset lfi")
    case False
    with assms Inr show ?thesis by (simp add: logScan_def Seek_def)
  next
    case True
    let ?st = "scan_start \<lparr>contents = bytes, fpos = nat (LastOffset lfi)\<rparr> ch"
    from assms logScan_unfold [where fs=fs and l=l and container=container and now=now and ch=ch, OF Inr True]
    obtain st where "logScan_loop lfi now ?st = Panicked st"
      by (cases "logScan_loop lfi now ?st") (auto split: if_splits)
    moreover have "scanner_ok (scanner ?st)"
      by (simp add: scanner_ok_def scan_start_def NewScanner_def scan_end_def)
    ultimately have "[] \<in> set (lines_of (stream (scanner ?st)))" by (rule logScan_loop_panic [rotated])
    then show ?thesis using Inr by (simp add: stream_def scan_start_def NewScanner_def)
  qed
qed

lemma empty_line_lines: \<open>lines_of empty_line_file = [''{"a":1}''] @ [] # [''{"a":2}'']\<close>
  by (simp add: empty_line_file_def lines_eval)

lemma fit_small: "length bytes < maxTokenSize \<Longrightarrow> lines_fit (drop n bytes)"
  by (rule lines_fit_small) simp

lemma one_sentinel_lines:
  \<open>lines_of one_sentinel_file = [''{"a":1}'', ''{"a":2}'', logSentinelLine]\<close>
  by (simp add: one_sentinel_file_def lines_eval)

lemma three_lines_lines:
  \<open>lines_of three_lines_file = [''{"a":1}''] @ ''{"a":2}'' # [''{"a":3}'']\<close>
  by (simp add: three_lines_file_def lines_eval)

lemma one_line_lines: \<open>lines_of one_line_file = [''{"a":1}'']\<close>
  by (simp add: one_line_file_def lines_eval)

lemma three_lines_scan:
  \<open>logScan cfg0 (one_log ''c1'' three_lines_file) now ''c1'' limit10_cursor ch =
     (ch @ [''{"a":1,"foo":"bar"}'', ''{"a":2,"foo":"bar"}'',
            synthetic_line now (truncatedLogMessage 10) ''"foo":"bar"'', ''ACT1''], Ok 24)\<close>
proof -
  have off: "0 \<le> LastOffset limit10_cursor" by (simp add: limit10_cursor_def)
  have fit: "lines_fit (drop (nat (LastOffset limit10_cursor)) three_lines_file)"
    by (rule fit_small) (simp add: three_lines_file_def maxTokenSize_def)
  have fw: \<open>forward_lines limit10_cursor now
      (lines_of (drop (nat (LastOffset limit10_cursor)) three_lines_file)) 2 0 ch =
     (Truncated, 0, 14,
      ch @ [''{"a":1,"foo":"bar"}'', ''{"a":2,"foo":"bar"}'',
            synthetic_line now (truncatedLogMessage 10) ''"foo":"bar"''])\<close>
    by (simp add: limit10_cursor_def three_lines_lines is_sentinel_def munge_def writeSyntheticLogLine_def)
  from logScan_lines [where fs="one_log ''c1'' three_lines_file" and l=cfg0 and container="''c1''",
      OF one_log_open off fit fw]
  show ?thesis by (auto simp: limit10_cursor_def three_lines_file_def)
qed

lemma long_length: "length long_file = 4243"
  by (simp add: long_file_def wrapped_sentinel_def)

lemma IndexByte_append: "c \<notin> set a \<Longrightarrow> IndexByte (a @ c # b) c = Some (length a)"
  by (induction a) auto

lemma Scan_held_line:
  assumes "IndexByte (s_held s) newline = Some i"
  shows "Scan s = (True, s\<lparr>s_start := s_start s + (i + 1), s_held := drop (i + 1) (s_held s),
                            s_token := dropCR (take i (s_held s))\<rparr>)"
proof -
  from assms have "s_held s \<noteq> []" by auto
  with assms show ?thesis
    by (subst Scan.simps) (simp add: scan_split_def ScanLines_def)
qed

lemma wrapped_no_newline: "newline \<notin> set wrapped_sentinel" "dropCR wrapped_sentinel = wrapped_sentinel"
  by (simp_all add: wrapped_sentinel_def newline_def dropCR_def carriage_return_def)

lemma wrapped_sentinel_length: "length wrapped_sentinel = 65"
  by (simp add: wrapped_sentinel_def)

lemma long_first_chunk:
  \<open>take startBufSize long_file =
     wrapped_sentinel @ newline # wrapped_sentinel @ newline # ''{"log":"'' @ replicate 3956 CHR ''x''\<close>
  by (simp add: long_file_def startBufSize_def wrapped_sentinel_def)

lemma Scan_held_append:
  assumes "s_held s = a @ newline # b" "newline \<notin> set a"
  shows "Scan s = (True, s\<lparr>s_start := s_start s + (length a + 1), s_held := b, s_token := dropCR a\<rparr>)"
  using Scan_held_line [of s "length a"] IndexByte_append [OF assms(2), of b] assms(1) by simp

lemma loop_scan_cong:
  assumes "Scan (scanner st) = Scan s'" "0 < sentinelsLeft st"
  shows "logScan_loop lfi now st = logScan_loop lfi now (st\<lparr>scanner := s'\<rparr>)"
proof (cases "Scan s'")
  case (Pair b sc)
  with assms have "logScan_loop lfi now (st\<lparr>scanner := s'\<rparr>) =
     (if b then (case scan_line lfi now (st\<lparr>scanner := sc\<rparr>) of
                Done st' \<Rightarrow> logScan_loop lfi now st'
              | Panicked st' \<Rightarrow> Panicked st')
      else Done (st\<lparr>scanner := sc\<rparr>))"
    by (subst logScan_loop.simps) simp
  moreover from Pair assms have "logScan_loop lfi now st =
     (if b then (case scan_line lfi now (st\<lparr>scanner := sc\<rparr>) of
                Done st' \<Rightarrow> logScan_loop lfi now st'
              | Panicked st' \<Rightarrow> Panicked st')
      else Done (st\<lparr>scanner := sc\<rparr>))"
    by (subst logScan_loop.simps) simp
  ultimately show ?thesis by simp
qed

lemma loop_sentinel_step:
  assumes "0 < sentinelsLeft st" "s_held (scanner st) = a @ newline # b" "newline \<notin> set a"
    and "is_sentinel lfi (dropCR a)"
  shows "logScan_loop lfi now st =
     logScan_loop lfi now
       (st\<lparr>scanner := (scanner st)\<lparr>s_start := s_start (scanner st) + (length a + 1), s_held := b,
                                    s_token := dropCR a\<rparr>,
           sentinelsLeft := sentinelsLeft st - 1\<rparr>)"
  using assms Scan_held_append [OF assms(2,3)]
  by (subst logScan_loop.simps) (simp add: scan_line_token)

lemma long_first_scan:
  "logScan cfg0 (one_log ''c1'' long_file) now ''c1'' scenario_cursor ch = (ch @ [''ACT1''], Ok 4096)"
proof -
  let ?f = "\<lparr>contents = long_file, fpos = 0\<rparr>"
  let ?R = \<open>''{"log":"'' @ replicate 3956 CHR ''x''\<close>
  let ?s1 = "\<lparr>s_r = ?f\<lparr>fpos := 4096\<rparr>, s_buflen = startBufSize, s_start = 0,
      s_held = wrapped_sentinel @ newline # wrapped_sentinel @ newline # ?R, s_token = [], s_err = None\<rparr>"
  let ?st0 = "scan_start ?f ch"
  have s: "is_sentinel scenario_cursor (dropCR wrapped_sentinel)"
    by (simp add: wrapped_no_newline is_sentinel_def scenario_cursor_def Contains_wrapped)
  have len: "length (take startBufSize long_file) = 4096"
    by (simp add: long_length startBufSize_def)
  have "scan_read ((NewScanner ?f)\<lparr>s_buflen := startBufSize\<rparr>) = ?s1"
    using long_first_chunk len
    by (auto simp: scan_read_def Read_def Let_def NewScanner_def scan_end_def startBufSize_def)
  with Scan_NewScanner [of ?f] have "Scan (scanner ?st0) = Scan ?s1" by (simp add: scan_start_def)
  from loop_scan_cong [OF this]
  have "logScan_loop scenario_cursor now ?st0 = logScan_loop scenario_cursor now (?st0\<lparr>scanner := ?s1\<rparr>)"
    by (simp add: scan_start_def)
  also have "\<dots> = logScan_loop scenario_cursor now
      (?st0\<lparr>scanner := ?s1\<lparr>s_start := 66, s_held := wrapped_sentinel @ newline # ?R,
                             s_token := wrapped_sentinel\<rparr>, sentinelsLeft := 1\<rparr>)"
    using loop_sentinel_step [where st="?st0\<lparr>scanner := ?s1\<rparr>" and a=wrapped_sentinel
        and b="wrapped_sentinel @ newline # ?R" and lfi=scenario_cursor and now=now] s wrapped_no_newline
    by (simp add: scan_start_def wrapped_sentinel_length)
  also have "\<dots> = logScan_loop scenario_cursor now
      (?st0\<lparr>scanner := ?s1\<lparr>s_start := 132, s_held := ?R, s_token := wrapped_sentinel\<rparr>,
            sentinelsLeft := 0\<rparr>)"
    using loop_sentinel_step [where st="?st0\<lparr>scanner := ?s1\<lparr>s_start := 66,
          s_held := wrapped_sentinel @ newline # ?R, s_token := wrapped_sentinel\<rparr>, sentinelsLeft := 1\<rparr>"
        and a=wrapped_sentinel and b="?R" and lfi=scenario_cursor and now=now] s wrapped_no_newline
    by (simp add: scan_start_def wrapped_sentinel_length)
  also have "\<dots> = Done (?st0\<lparr>scanner := ?s1\<lparr>s_start := 132, s_held := ?R, s_token := wrapped_sentinel\<rparr>,
            sentinelsLeft := 0\<rparr>)"
    by (rule logScan_loop_stop) simp
  finally have loop: "logScan_loop scenario_cursor now ?st0 =
      Done (?st0\<lparr>scanner := ?s1\<lparr>s_start := 132, s_held := ?R, s_token := wrapped_sentinel\<rparr>,
            sentinelsLeft := 0\<rparr>)" .
  have off: "0 \<le> LastOffset scenario_cursor" by (simp add: scenario_cursor_def)
  from logScan_unfold [where fs="one_log ''c1'' long_file" and l=cfg0 and container="''c1''"
      and now=now and ch=ch, OF one_log_open off] loop
  show ?thesis by (simp add: scenario_cursor_def scan_start_def)
qed

lemma Contains_set: "Contains s sub \<Longrightarrow> set sub \<subseteq> set s"
  by (auto simp: Contains_iff)

lemma long_rest: "drop 4096 long_file = long_tail @ [newline]"
  by (simp add: long_file_def long_tail_def wrapped_sentinel_def)

lemma long_rest_lines: "lines_of (drop 4096 long_file) = [long_tail]"
proof -
  have "newline \<notin> set long_tail" by (simp add: long_tail_def newline_def)
  from raw_lines_append [OF this, of "[]"] show ?thesis
    by (simp add: long_rest lines_of_def raw_lines_Nil)
       (simp add: long_tail_def dropCR_def carriage_return_def)
qed

lemma long_second_scan:
  \<open>logScan cfg0 (one_log ''c1'' long_file) now ''c1'' (scenario_cursor\<lparr>LastOffset := 4096\<rparr>) ch =
     (ch @ [replicate 144 CHR ''x'' @ ''","foo":"bar"}''],
      Err ''Failed to find expected sentinels in log file'')\<close>
proof -
  let ?lfi = "scenario_cursor\<lparr>LastOffset := 4096\<rparr>"
  have off: "0 \<le> LastOffset ?lfi" "nat (LastOffset ?lfi) = 4096" by simp_all
  have fit: "lines_fit (drop (nat (LastOffset ?lfi)) long_file)"
    by (rule fit_small) (simp add: long_length maxTokenSize_def)
  have "\<not> set logSentinelLine \<subseteq> set long_tail"
    by (simp add: logSentinelLine_def long_tail_def)
  with Contains_set [of long_tail logSentinelLine]
  have "\<not> Contains long_tail logSentinelLine" by blast
  then have ns: "\<not> is_sentinel ?lfi long_tail"
    by (simp add: is_sentinel_def)
  have ne: "long_tail \<noteq> []" by (simp add: long_tail_def)
  have len: "int (length long_tail) = 146" by (simp add: long_tail_def)
  have fw: "forward_lines ?lfi now (lines_of (drop (nat (LastOffset ?lfi)) long_file)) 2 0 ch =
      (Exhausted, 2, 146, ch @ [munge ?lfi long_tail])"
    using ns ne len by (simp add: off long_rest_lines) (simp add: scenario_cursor_def)
  have m: \<open>munge ?lfi long_tail = replicate 144 CHR ''x'' @ ''","foo":"bar"}''\<close>
    by (simp add: munge_def long_tail_def scenario_cursor_def butlast_append)
  from logScan_lines [where fs="one_log ''c1'' long_file" and l=cfg0 and container="''c1''",
      OF one_log_open off(1) fit fw]
  have "logScan cfg0 (one_log ''c1'' long_file) now ''c1'' ?lfi ch =
     (ch @ [munge ?lfi long_tail], Err ''Failed to find expected sentinels in log file'')"
    by (auto simp: scenario_cursor_def)
  then show ?thesis by (simp only: m)
qed

lemma forward_lines_unsentinelled:
  "\<not> SentinelledLogs lfi \<Longrightarrow> 0 < sl \<Longrightarrow> fst (forward_lines lfi now xs sl bw ch) \<noteq> Stopped"
  by (induction xs arbitrary: bw ch) (simp_all add: is_sentinel_def)

lemma Itoa_nat_nonempty: "Itoa_nat n \<noteq> []"
  by (subst Itoa_nat.simps) simp

lemma digit_char_inj:
  assumes "a < 10" "b < 10" "digit_char a = digit_char b"
  shows "a = b"
proof -
  have d: "distinct ''0123456789''" by simp
  from assms have "a < length ''0123456789''" "b < length ''0123456789''" by simp_all
  with nth_eq_iff_index_eq [OF d] assms(3) show ?thesis by (simp add: digit_char_def)
qed

lemma digit_char_digit: "d < 10 \<Longrightarrow> digit_char d \<in> set ''0123456789''"
  unfolding digit_char_def by (rule nth_mem) simp

lemma Itoa_nat_digits: "set (Itoa_nat n) \<subseteq> set ''0123456789''"
proof (induction n rule: Itoa_nat.induct)
  case (1 n)
  show ?case
  proof (cases "n < 10")
    case True
    with digit_char_digit [of n] show ?thesis by (subst Itoa_nat.simps) simp
  next
    case False
    have "n mod 10 < 10" by simp
    from digit_char_digit [OF this] "1.IH" [OF False] False show ?thesis
      by (subst Itoa_nat.simps) simp
  qed
qed

lemma Itoa_nat_inj: "Itoa_nat n = Itoa_nat m \<Longrightarrow> n = m"
proof (induction n arbitrary: m rule: Itoa_nat.induct)
  case (1 n)
  have one: "k < 10 \<Longrightarrow> Itoa_nat k = [digit_char k]" for k by (subst Itoa_nat.simps) simp
  have more: "\<not> k < 10 \<Longrightarrow> Itoa_nat k = Itoa_nat (k div 10) @ [digit_char (k mod 10)]" for k
    by (subst Itoa_nat.simps) simp
  show ?case
  proof (cases "n < 10")
    case n: True
    show ?thesis
    proof (cases "m < 10")
      case True
      with n "1.prems" one show ?thesis by (auto intro: digit_char_inj)
    next
      case False
      with n "1.prems" one [of n] more [of m] Itoa_nat_nonempty [of "m div 10"] show ?thesis
        by (cases "Itoa_nat (m div 10)") auto
    qed
  next
    case n: False
    show ?thesis
    proof (cases "m < 10")
      case True
      with n "1.prems" one [of m] more [of n] Itoa_nat_nonempty [of "n div 10"] show ?thesis
        by (cases "Itoa_nat (n div 10)") auto
    next
      case False
      with n "1.prems" more have eq: "Itoa_nat (n div 10) = Itoa_nat (m div 10)"
        "digit_char (n mod 10) = digit_char (m mod 10)" by auto
      from "1.IH" [OF n eq(1)] have "n div 10 = m div 10" .
      moreover from digit_char_inj [OF _ _ eq(2)] have "n mod 10 = m mod 10" by simp
      ultimately show ?thesis by (metis div_mult_mod_eq)
    qed
  qed
qed

lemma Itoa_inj: "Itoa i = Itoa j \<Longrightarrow> i = j"
proof -
  assume eq: "Itoa i = Itoa j"
  have nominus: "CHR ''-'' \<notin> set (Itoa_nat k)" for k
    using Itoa_nat_digits [of k] by auto
  have hd: "Itoa_nat k \<noteq> CHR ''-'' # t" "CHR ''-'' # t \<noteq> Itoa_nat k" for k t
  proof -
    show "Itoa_nat k \<noteq> CHR ''-'' # t"
    proof
      assume "Itoa_nat k = CHR ''-'' # t"
      then have "CHR ''-'' \<in> set (Itoa_nat k)" by simp
      with nominus [of k] show False by simp
    qed
    then show "CHR ''-'' # t \<noteq> Itoa_nat k" by (rule not_sym)
  qed
  show ?thesis
  proof (cases "i < 0")
    case i: True
    show ?thesis
    proof (cases "j < 0")
      case True
      with i eq have "Itoa_nat (nat (- i)) = Itoa_nat (nat (- j))" by (simp add: Itoa_def)
      from Itoa_nat_inj [OF this] i True show ?thesis by simp
    next
      case False
      with i eq hd(2) [of "Itoa_nat (nat (- i))" "nat j"] show ?thesis by (simp add: Itoa_def)
    qed
  next
    case i: False
    show ?thesis
    proof (cases "j < 0")
      case True
      with i eq hd(1) [of "nat i" "Itoa_nat (nat (- j))"] show ?thesis by (simp add: Itoa_def)
    next
      case False
      with i eq have "Itoa_nat (nat i) = Itoa_nat (nat j)" by (simp add: Itoa_def)
      from Itoa_nat_inj [OF this] i False show ?thesis by simp
    qed
  qed
qed

lemma sink_name_inj: "sink_name l t = sink_name l t' \<Longrightarrow> t = t'"
  by (auto simp: sink_name_def dest: Itoa_inj)

lemma logWriter_step_effect:
  assumes "logWriter_step l env line st = Some st'"
  shows "disk st' = (disk st)(sink_target l env st \<mapsto> sink_before st @ line @ [newline])"
    and "sinkFileBytes st' = (if sinkFile st = None then 0 else sinkFileBytes st) + int (length line) + 1"
    and "sinkFile st' = (if LogSinkSize l < sinkFileBytes st' then None else Some (sink_target l env st))"
  using assms
  by (auto simp: logWriter_step_def sink_target_def sink_before_def Let_def
      split: option.splits if_splits)

lemma sink_inv_step:
  assumes "logWriter_step l env line st = Some st'" "sink_inv l st"
  shows "sink_inv l st'"
proof (cases "LogSinkSize l < sinkFileBytes st'")
  case True
  with logWriter_step_effect(3) [OF assms(1)] show ?thesis by (simp add: sink_inv_def)
next
  case False
  note eff = logWriter_step_effect [OF assms(1)]
  from eff(3) False have op: "sinkFile st' = Some (sink_target l env st)" by simp
  have "sinkFileBytes st' = int (length (sink_before st @ line @ [newline]))"
  proof (cases "sinkFile st")
    case None
    with eff(2) show ?thesis by (simp add: sink_before_def)
  next
    case (Some f)
    with assms(2) eff(2) show ?thesis by (auto simp: sink_inv_def sink_before_def)
  qed
  with eff(1) op False show ?thesis by (simp add: sink_inv_def)
qed

lemma sink_inv_run: "logWriter l evs st = Some st' \<Longrightarrow> sink_inv l st \<Longrightarrow> sink_inv l st'"
proof (induction evs arbitrary: st)
  case Nil
  then show ?case by simp
next
  case (Cons ev evs)
  obtain env line where ev: "ev = (env, line)" by (cases ev)
  with Cons.prems(1) obtain st1 where one: "logWriter_step l env line st = Some st1"
    and rest: "logWriter l evs st1 = Some st'"
    by (cases "logWriter_step l env line st") auto
  from Cons.IH [OF rest sink_inv_step [OF one Cons.prems(2)]] show ?case .
qed

lemma sink_inv_start: "sink_inv l sink_start"
  by (simp add: sink_inv_def sink_start_def)

lemma sink_name_example:
  "sink_name (cfg0\<lparr>LogSinkSize := T\<rparr>) 1527811200000 = ''/action-logs/userlogs-1527811200000.log''"
  "sink_name (cfg0\<lparr>LogSinkSize := T\<rparr>) 1527811200001 = ''/action-logs/userlogs-1527811200001.log''"
  by (simp_all add: sink_name_def cfg0_def Itoa_def Itoa_nat.simps digit_char_def)

lemma logWriter_step_total:
  "\<not> create_fails env \<Longrightarrow> \<not> write_fails env \<Longrightarrow> \<exists>st'. logWriter_step l env line st = Some st'"
  by (cases "sinkFile st") (simp_all add: logWriter_step_def Let_def)

lemma scenario_run:
  \<open>logScan cfg0 (one_log ''c1'' scenario_file) now ''c1'' scenario_cursor ch =
     (ch @ [''{"a":1,"foo":"bar"}'', ''{"a":2,"foo":"bar"}'', ''ACT1''], Ok 92)\<close>
proof -
  have off: "0 \<le> LastOffset scenario_cursor" by (simp add: scenario_cursor_def)
  have fit: "lines_fit (drop (nat (LastOffset scenario_cursor)) scenario_file)"
    by (rule fit_small) (simp add: scenario_length maxTokenSize_def)
  have fw: \<open>forward_lines scenario_cursor now
      (lines_of (drop (nat (LastOffset scenario_cursor)) scenario_file)) 2 0 ch =
     (Stopped, 0, 14, ch @ [''{"a":1,"foo":"bar"}'', ''{"a":2,"foo":"bar"}''])\<close>
    using scenario_forward [of now ch] by (simp add: scenario_cursor_def)
  from logScan_lines [where fs="one_log ''c1'' scenario_file" and l=cfg0 and container="''c1''",
      OF one_log_open off fit fw]
  show ?thesis by (auto simp: scenario_length scenario_cursor_def startBufSize_def)
qed




lemma rest_lines_simps:
  "rest_lines [] = []"
  "rest_lines (c # t) = (if c = newline then t else rest_lines t)"
  by (simp_all add: rest_lines_def)


lemma funpow_rest_lines:
  "(rest_lines ^^ 2) d = rest_lines (rest_lines d)"
  "(rest_lines ^^ 4) d = rest_lines (rest_lines (rest_lines (rest_lines d)))"
  by (simp_all add: eval_nat_numeral)



section \<open>Scans that truncate, and second scans from the end of the file\<close>

text \<open>
  Take a scan of a log that opens, from an offset that is not negative, where every
  line of the region is shorter than the scanner's maximal token.  Let the lines be
  \<open>pre\<close>, then \<open>x\<close>, then \<open>post\<close>, where \<open>pre\<close> holds fewer than two sentinel lines and no
  empty content line, \<open>x\<close> is a content line, the content lines of \<open>pre\<close> together do not
  exceed the size limit \<open>L\<close>, and with \<open>x\<close> they do.  Then the scan sends the content lines
  of \<open>pre\<close> and \<open>x\<close>, munged, then exactly one synthetic line, in which the decimal
  numeral of \<open>L\<close> occurs, then the activation record; and it returns the length of the
  file, the position of its end, as the offset.
\<close>

lemma truncation_run:
  assumes "fs (logFileName l container) = Inr bytes" and "0 \<le> LastOffset lfi"
    and "lines_fit (drop (nat (LastOffset lfi)) bytes)"
    and "lines_of (drop (nat (LastOffset lfi)) bytes) = pre @ x # post"
    and "length (sentinels lfi pre) < 2" and "[] \<notin> set (content lfi pre)"
    and "\<not> is_sentinel lfi x"
    and "total_bytes (content lfi pre) \<le> SizeLimit lfi"
    and "SizeLimit lfi < total_bytes (content lfi pre) + int (length x)"
  shows "logScan l fs now container lfi ch =
           (ch @ map (munge lfi) (content lfi pre) @
            [munge lfi x,
             synthetic_line now (truncatedLogMessage (SizeLimit lfi)) (EncodedLogLineMetadata lfi),
             EncodedActivation lfi],
            Ok (int (length bytes))) \<and>
         (\<exists>a b. synthetic_line now (truncatedLogMessage (SizeLimit lfi)) (EncodedLogLineMetadata lfi) =
                  a @ Itoa (SizeLimit lfi) @ b)"
proof -
  from assms(5) have k: "int (length (sentinels lfi pre)) < 2" by simp
  from assms(8,9) have x: "x \<noteq> []" by auto
  have "forward_lines lfi now (pre @ x # post) 2 0 ch =
      forward_lines lfi now (x # post) (2 - int (length (sentinels lfi pre)))
        (0 + total_bytes (content lfi pre)) (ch @ map (munge lfi) (content lfi pre))"
    using assms(8) by (intro forward_lines_prefix [OF k assms(6)]) simp
  with k assms(7,9) x have fw: "forward_lines lfi now (lines_of (drop (nat (LastOffset lfi)) bytes)) 2 0 ch =
      (Truncated, 0, 0 + total_bytes (content lfi pre) + int (length x),
       writeSyntheticLogLine now (truncatedLogMessage (SizeLimit lfi)) (EncodedLogLineMetadata lfi)
         ((ch @ map (munge lfi) (content lfi pre)) @ [munge lfi x]))"
    using assms(4) by simp
  from logScan_lines [where fs=fs and l=l and container=container, OF assms(1,2,3) fw]
  have "logScan l fs now container lfi ch =
           (ch @ map (munge lfi) (content lfi pre) @
            [munge lfi x,
             synthetic_line now (truncatedLogMessage (SizeLimit lfi)) (EncodedLogLineMetadata lfi),
             EncodedActivation lfi],
            Ok (int (length bytes)))"
    by (auto simp: writeSyntheticLogLine_def)
  moreover have \<open>synthetic_line now (truncatedLogMessage (SizeLimit lfi)) (EncodedLogLineMetadata lfi) =
      ''{"log":"Logs were truncated because the total bytes size exceeds the limit of '' @
      Itoa (SizeLimit lfi) @
      ('' bytes.", "stream":"stderr", "time":"'' @ now @ ''",'' @ EncodedLogLineMetadata lfi @ ''}'')\<close>
    by (simp add: synthetic_line_def truncatedLogMessage_def)
  then have "\<exists>a b. synthetic_line now (truncatedLogMessage (SizeLimit lfi)) (EncodedLogLineMetadata lfi) =
      a @ Itoa (SizeLimit lfi) @ b" by blast
  ultimately show ?thesis by simp
qed

text \<open>
  Three lines of 7 bytes and the size limit 10.  The limit is exceeded at the second
  line, which ends at byte 16; the offset returned is 24, the end of the file.
\<close>

lemma truncation_run_example:
  \<open>lines_of three_lines_file = [''{"a":1}''] @ ''{"a":2}'' # [''{"a":3}''] \<and>
   SizeLimit limit10_cursor = 10 \<and>
   logScan cfg0 (one_log ''c1'' three_lines_file) ''2018-06-01T00:00:00Z'' ''c1'' limit10_cursor [] =
     ([''{"a":1,"foo":"bar"}'', ''{"a":2,"foo":"bar"}'',
       synthetic_line ''2018-06-01T00:00:00Z'' (truncatedLogMessage 10) ''"foo":"bar"'', ''ACT1''],
      Ok (int (length three_lines_file))) \<and>
   length three_lines_file = 24\<close>
proof -
  have off: "0 \<le> LastOffset limit10_cursor" by (simp add: limit10_cursor_def)
  have fit: "lines_fit (drop (nat (LastOffset limit10_cursor)) three_lines_file)"
    by (rule fit_small) (simp add: three_lines_file_def maxTokenSize_def)
  have ls: \<open>lines_of (drop (nat (LastOffset limit10_cursor)) three_lines_file) =
      [''{"a":1}''] @ ''{"a":2}'' # [''{"a":3}'']\<close>
    by (simp add: limit10_cursor_def three_lines_lines)
  have pre: \<open>length (sentinels limit10_cursor [''{"a":1}'']) < 2\<close>
    \<open>[] \<notin> set (content limit10_cursor [''{"a":1}''])\<close>
    \<open>\<not> is_sentinel limit10_cursor ''{"a":2}''\<close>
    \<open>total_bytes (content limit10_cursor [''{"a":1}'']) \<le> SizeLimit limit10_cursor\<close>
    \<open>SizeLimit limit10_cursor < total_bytes (content limit10_cursor [''{"a":1}'']) + int (length ''{"a":2}'')\<close>
    by (simp_all add: sentinels_def content_def is_sentinel_def total_bytes_def limit10_cursor_def)
  have c: \<open>map (munge limit10_cursor) (content limit10_cursor [''{"a":1}'']) = [''{"a":1,"foo":"bar"}'']\<close>
    \<open>munge limit10_cursor ''{"a":2}'' = ''{"a":2,"foo":"bar"}''\<close>
    by (simp_all add: content_def is_sentinel_def munge_def limit10_cursor_def)
  from truncation_run [where fs="one_log ''c1'' three_lines_file" and l=cfg0 and container="''c1''"
      and now="''2018-06-01T00:00:00Z''" and ch="[]", OF one_log_open off fit ls pre]
  show ?thesis
    by (simp add: c three_lines_lines) (simp add: limit10_cursor_def three_lines_file_def)
qed

text \<open>
  If a scan returns an offset at or beyond the end of the file, then a second scan from
  this offset, on the same file, forwards no content line: when the logs are not
  sentinelled it sends its activation record and returns the same offset, and when they
  are it fails for the missing sentinels.  The example is the truncated scan above.
\<close>

lemma second_scan_at_end:
  assumes "fs (logFileName l container) = Inr bytes"
    and "logScan l fs now container lfi ch = (ch1, Ok r)"
    and "int (length bytes) \<le> r"
  shows "logScan l fs now' container (lfi\<lparr>LastOffset := r\<rparr>) ch1 =
           (if SentinelledLogs lfi
            then (ch1, Err ''Failed to find expected sentinels in log file'')
            else (ch1 @ [EncodedActivation lfi], Ok r))"
proof -
  note atend = assms(3)
  let ?lfi = "lfi\<lparr>LastOffset := r\<rparr>"
  from atend have r0: "0 \<le> LastOffset ?lfi" by simp
  from atend have region: "drop (nat (LastOffset ?lfi)) bytes = []" by simp
  have fit: "lines_fit (drop (nat (LastOffset ?lfi)) bytes)"
    unfolding region by (simp add: lines_fit_def raw_lines_Nil)
  have fw: "forward_lines ?lfi now' (lines_of (drop (nat (LastOffset ?lfi)) bytes)) 2 0 ch1 =
      (Exhausted, 2, 0, ch1)"
    unfolding region by (simp add: lines_of_Nil)
  from logScan_lines [where fs=fs and l=l and container=container, OF assms(1) r0 fit fw] atend
  show ?thesis by auto
qed

lemma second_scan_at_end_example:
  \<open>logScan cfg0 (one_log ''c1'' three_lines_file) ''2018-06-01T00:00:01Z'' ''c1''
       (limit10_cursor\<lparr>LastOffset := 24\<rparr>)
       [''{"a":1,"foo":"bar"}'', ''{"a":2,"foo":"bar"}'',
        synthetic_line ''2018-06-01T00:00:00Z'' (truncatedLogMessage 10) ''"foo":"bar"'', ''ACT1''] =
     ([''{"a":1,"foo":"bar"}'', ''{"a":2,"foo":"bar"}'',
       synthetic_line ''2018-06-01T00:00:00Z'' (truncatedLogMessage 10) ''"foo":"bar"'', ''ACT1'',
       ''ACT1''], Ok 24)\<close>
proof -
  note first = three_lines_scan [of "''2018-06-01T00:00:00Z''" "[]"]
  have len: "int (length three_lines_file) \<le> 24" by (simp add: three_lines_file_def)
  from second_scan_at_end [where fs="one_log ''c1'' three_lines_file" and l=cfg0 and container="''c1''"
      and now'="''2018-06-01T00:00:01Z''", OF one_log_open first len]
  show ?thesis by (simp add: limit10_cursor_def)
qed

lemma rest_lines_append: "newline \<notin> set a \<Longrightarrow> rest_lines (a @ newline # b) = b"
  by (induction a) (auto simp: rest_lines_simps)

lemma long_line_ends: "line_end long_file 0 2 = 132" "line_end long_file 0 3 = 4243"
proof -
  let ?x = \<open>''{"log":"'' @ replicate 4100 CHR ''x'' @ ''"}''\<close>
  let ?t = \<open>''{"log":"'' @ replicate 4100 CHR ''x'' @ ''"}'' @ [newline]\<close>
  have x: "newline \<notin> set ?x" by (simp add: newline_def)
  have r1: "rest_lines long_file = wrapped_sentinel @ newline # ?t"
    unfolding long_file_def by (rule rest_lines_append) (rule wrapped_no_newline)
  have r2: "rest_lines (wrapped_sentinel @ newline # ?t) = ?t"
    by (rule rest_lines_append) (rule wrapped_no_newline)
  have "?t = ?x @ newline # []" by simp
  then have r3: "rest_lines ?t = []"
    using rest_lines_append [OF x, of "[]"] by (simp only:)
  have two: "(rest_lines ^^ 2) long_file = ?t"
    by (simp only: funpow_rest_lines r1 r2)
  have "(rest_lines ^^ 3) long_file = rest_lines ((rest_lines ^^ 2) long_file)"
    by (simp add: eval_nat_numeral)
  then have three: "(rest_lines ^^ 3) long_file = []"
    by (simp only: two r3)
  show "line_end long_file 0 2 = 132"
    unfolding line_end_def by (simp add: two long_length)
  show "line_end long_file 0 3 = 4243"
    unfolding line_end_def by (simp add: three long_length)
qed

section \<open>The claims\<close>

subsection \<open>C1: which lines are sentinels\<close>

text \<open>
  C1, as stated, fails.  The claim: in a sentinelled scan a line is consumed as a
  sentinel if and only if it equals the marker \<open>XXX_THE_END_OF_A_WHISK_ACTIVATION_XXX\<close>,
  and every other line is forwarded.  \<open>logScan\<close> tests \<open>strings.Contains\<close>, not equality.
  The log below holds one content line and twice the line
  \<open>{"log":"XXX_THE_END_OF_A_WHISK_ACTIVATION_XXX","stream":"stdout"}\<close>, which is not equal
  to the marker: both are consumed as sentinels, neither is forwarded, and the scan
  succeeds.
\<close>

theorem sentinel_not_exact_counterexample:
  \<open>wrapped_sentinel \<noteq> logSentinelLine \<and>
   lines_of wrapped_file = [''{"a":1}'', wrapped_sentinel, wrapped_sentinel] \<and>
   logScan cfg0 (one_log ''c1'' wrapped_file) ''2018-06-01T00:00:00Z'' ''c1'' scenario_cursor [] =
     ([''{"a":1,"foo":"bar"}'', ''ACT1''], Ok 140)\<close>
proof -
  have off: "0 \<le> LastOffset scenario_cursor" by (simp add: scenario_cursor_def)
  have fit: "lines_fit (drop (nat (LastOffset scenario_cursor)) wrapped_file)"
    by (rule lines_fit_small) (simp add: wrapped_length maxTokenSize_def)
  have fw: \<open>forward_lines scenario_cursor ''2018-06-01T00:00:00Z''
      (lines_of (drop (nat (LastOffset scenario_cursor)) wrapped_file)) 2 0 [] =
     (Stopped, 0, 7, [] @ [''{"a":1,"foo":"bar"}''])\<close>
    by (simp add: scenario_cursor_def wrapped_lines is_sentinel_def Contains_wrapped munge_def)
       (simp add: logSentinelLine_def)
  from logScan_lines [where fs="one_log ''c1'' wrapped_file" and l=cfg0 and container="''c1''",
      OF one_log_open off fit fw]
  have "logScan cfg0 (one_log ''c1'' wrapped_file) ''2018-06-01T00:00:00Z'' ''c1'' scenario_cursor [] =
     ([''{\"a\":1,\"foo\":\"bar\"}'', ''ACT1''], Ok 140)"
    by (auto simp: wrapped_length scenario_cursor_def startBufSize_def)
  moreover have "wrapped_sentinel \<noteq> logSentinelLine"
    by (simp add: wrapped_sentinel_def logSentinelLine_def)
  ultimately show ?thesis using wrapped_lines by simp
qed

text \<open>
  C1, amended.  In a sentinelled scan, the body of the loop consumes the line as a
  sentinel (the only change of the state is that \<open>sentinelsLeft\<close> is one less; nothing is
  sent) if and only if the line contains the marker as a substring.  A line that does not
  contain the marker, and is not empty, is content: its munged form is the next line sent
  on the channel.
\<close>

theorem sentinel_iff_contains:
  assumes "SentinelledLogs lfi"
  shows "(scan_line lfi now st = Done (st\<lparr>sentinelsLeft := sentinelsLeft st - 1\<rparr>)
           \<longleftrightarrow> (\<exists>a b. s_token (scanner st) = a @ logSentinelLine @ b)) \<and>
         ((\<nexists>a b. s_token (scanner st) = a @ logSentinelLine @ b) \<and> s_token (scanner st) \<noteq> [] \<longrightarrow>
            (\<exists>st'. scan_line lfi now st = Done st' \<and>
                   take (Suc (length (logSinkChannel st))) (logSinkChannel st') =
                     logSinkChannel st @ [munge lfi (s_token (scanner st))]))"
proof -
  have s: "is_sentinel lfi (s_token (scanner st)) \<longleftrightarrow> (\<exists>a b. s_token (scanner st) = a @ logSentinelLine @ b)"
    using assms by (simp add: is_sentinel_def Contains_iff)
  have "is_sentinel lfi (s_token (scanner st)) \<Longrightarrow>
      scan_line lfi now st = Done (st\<lparr>sentinelsLeft := sentinelsLeft st - 1\<rparr>)"
    by (simp add: scan_line_token)
  with scan_line_content [of lfi st now] s have iff: "scan_line lfi now st = Done (st\<lparr>sentinelsLeft := sentinelsLeft st - 1\<rparr>)
           \<longleftrightarrow> (\<exists>a b. s_token (scanner st) = a @ logSentinelLine @ b)" by blast
  have "\<not> is_sentinel lfi (s_token (scanner st)) \<Longrightarrow> s_token (scanner st) \<noteq> [] \<Longrightarrow>
      (\<exists>st'. scan_line lfi now st = Done st' \<and>
                   take (Suc (length (logSinkChannel st))) (logSinkChannel st') =
                     logSinkChannel st @ [munge lfi (s_token (scanner st))])"
    by (simp add: scan_line_token Let_def writeSyntheticLogLine_def)
  with iff s show ?thesis by blast
qed

text \<open>
  C1, witness: the line \<open>{"log":"XXX_THE_END_OF_A_WHISK_ACTIVATION_XXX","stream":"stdout"}\<close>
  in a sentinelled scan with two sentinels left.
\<close>

theorem sentinel_iff_contains_witness:
  "SentinelledLogs scenario_cursor \<and>
   scan_line scenario_cursor ''2018-06-01T00:00:00Z'' wrapped_state =
     Done (wrapped_state\<lparr>sentinelsLeft := 1\<rparr>)"
proof -
  have s: "SentinelledLogs scenario_cursor" by (simp add: scenario_cursor_def)
  have \<open>s_token (scanner wrapped_state) = ''{"log":"'' @ logSentinelLine @ ''","stream":"stdout"}''\<close>
    by (simp add: wrapped_state_def wrapped_sentinel_def logSentinelLine_def)
  then have "\<exists>a b. s_token (scanner wrapped_state) = a @ logSentinelLine @ b" by blast
  with sentinel_iff_contains [OF s, of "''2018-06-01T00:00:00Z''" wrapped_state] s
  show ?thesis by (simp add: wrapped_state_def)
qed

subsection \<open>C2: the concrete scenario\<close>

text \<open>
  C2.  The log of container \<open>c1\<close> holds the lines \<open>{"a":1}\<close> and \<open>{"a":2}\<close> and two
  sentinel lines.  Scanned from offset 0 with size limit 1000, sentinelled, metadata
  \<open>"foo":"bar"\<close> and activation record \<open>ACT1\<close>, the scan succeeds; it sends exactly the two
  content lines, each ending in \<open>,"foo":"bar"}\<close>, and then \<open>ACT1\<close>; the offset returned
  is the length of the file, 92 bytes.  This holds whatever the clock reads and whatever
  was sent on the channel before.
\<close>

theorem scenario_scan:
  \<open>logScan cfg0 (one_log ''c1'' scenario_file) now ''c1'' scenario_cursor ch =
     (ch @ [''{"a":1,"foo":"bar"}'', ''{"a":2,"foo":"bar"}'', ''ACT1''], Ok (int (length scenario_file)))
   \<and> length scenario_file = 92\<close>
  using scenario_run [of now ch] by (simp add: scenario_length)

text \<open>
  C2, at a given time and with nothing sent before.
\<close>

theorem scenario_scan_witness:
  \<open>logScan cfg0 (one_log ''c1'' scenario_file) ''2018-06-01T00:00:00Z'' ''c1'' scenario_cursor [] =
     ([''{"a":1,"foo":"bar"}'', ''{"a":2,"foo":"bar"}'', ''ACT1''], Ok 92)\<close>
  using scenario_scan [of "''2018-06-01T00:00:00Z''" "[]"] by simp

subsection \<open>C3: missing sentinels\<close>

text \<open>
  C3, as stated, fails.  The claim: every sentinelled scan of a region with fewer than
  two sentinel lines reports the failure.  A scan that exceeds the size limit leaves the
  loop with \<open>sentinelsLeft = 0\<close> and succeeds.  Below, the log holds one content line of 7
  bytes and no sentinel, and the size limit is 1: the scan sends the line, the truncation
  notice and the activation record, and returns the offset 8.
\<close>

theorem missing_sentinels_counterexample:
  \<open>SentinelledLogs limit1_cursor \<and>
   sentinels limit1_cursor (lines_of one_line_file) = [] \<and>
   logScan cfg0 (one_log ''c1'' one_line_file) ''2018-06-01T00:00:00Z'' ''c1'' limit1_cursor [] =
     ([''{"a":1,"foo":"bar"}'',
       synthetic_line ''2018-06-01T00:00:00Z'' (truncatedLogMessage 1) ''"foo":"bar"'',
       ''ACT1''], Ok 8)\<close>
proof -
  let ?now = "''2018-06-01T00:00:00Z''"
  have off: "0 \<le> LastOffset limit1_cursor" by (simp add: limit1_cursor_def)
  have fit: "lines_fit (drop (nat (LastOffset limit1_cursor)) one_line_file)"
    by (rule fit_small) (simp add: one_line_file_def maxTokenSize_def)
  have fw: \<open>forward_lines limit1_cursor ?now
      (lines_of (drop (nat (LastOffset limit1_cursor)) one_line_file)) 2 0 [] =
     (Truncated, 0, 7,
      [''{"a":1,"foo":"bar"}'', synthetic_line ?now (truncatedLogMessage 1) ''"foo":"bar"''])\<close>
    by (simp add: limit1_cursor_def one_line_lines is_sentinel_def munge_def writeSyntheticLogLine_def)
       (simp add: logSentinelLine_def)
  from logScan_lines [where fs="one_log ''c1'' one_line_file" and l=cfg0 and container="''c1''",
      OF one_log_open off fit fw]
  have \<open>logScan cfg0 (one_log ''c1'' one_line_file) ?now ''c1'' limit1_cursor [] =
     ([''{"a":1,"foo":"bar"}'', synthetic_line ?now (truncatedLogMessage 1) ''"foo":"bar"'', ''ACT1''],
      Ok 8)\<close>
    by (auto simp: limit1_cursor_def one_line_file_def)
  moreover have "sentinels limit1_cursor (lines_of one_line_file) = []"
    by (simp add: one_line_lines sentinels_def is_sentinel_def logSentinelLine_def)
  moreover have "SentinelledLogs limit1_cursor" by (simp add: limit1_cursor_def)
  ultimately show ?thesis by blast
qed

text \<open>
  C3, amended.  Take a sentinelled scan of a log that opens, from an offset that is not
  negative, where every line of the region from the offset on is shorter than the
  scanner's maximal token and none is empty.  If fewer than two of these lines are
  sentinel lines and the content lines together do not exceed the size limit, then
  \<open>logScan\<close> sends every content line, munged, and returns the error
  \<open>Failed to find expected sentinels in log file\<close> and no offset; the handler then answers
  500, and sends the generic error notice (when the metadata is not empty) and the
  activation record.
\<close>

theorem missing_sentinels:
  assumes "fs (logFileName l container) = Inr bytes" and "0 \<le> LastOffset lfi"
    and "lines_fit (drop (nat (LastOffset lfi)) bytes)"
    and "SentinelledLogs lfi"
    and "xs = lines_of (drop (nat (LastOffset lfi)) bytes)"
    and "length (sentinels lfi xs) < 2" and "[] \<notin> set xs"
    and "total_bytes (content lfi xs) \<le> SizeLimit lfi"
  shows "logScan l fs now container lfi ch =
           (ch @ map (munge lfi) (content lfi xs), Err ''Failed to find expected sentinels in log file'') \<and>
         forward_scanned l fs now now' container lfi ch =
           (Some \<lparr>status = 500, written = ''Failed to find expected sentinels in log file''\<rparr>,
            ch @ map (munge lfi) (content lfi xs) @
            (if EncodedLogLineMetadata lfi \<noteq> []
             then [synthetic_line now' genericLogErrorMessage (EncodedLogLineMetadata lfi)] else []) @
            [EncodedActivation lfi])"
proof -
  from assms(6) have k: "int (length (sentinels lfi xs)) < 2" by simp
  from assms(7) have nil: "[] \<notin> set (content lfi xs)" by (simp add: content_def)
  have "forward_lines lfi now (xs @ []) 2 0 ch =
      forward_lines lfi now [] (2 - int (length (sentinels lfi xs)))
        (0 + total_bytes (content lfi xs)) (ch @ map (munge lfi) (content lfi xs))"
    using assms(8) by (intro forward_lines_prefix [OF k nil]) simp
  with k have fw: "forward_lines lfi now (lines_of (drop (nat (LastOffset lfi)) bytes)) 2 0 ch =
      (Exhausted, 2 - int (length (sentinels lfi xs)), 0 + total_bytes (content lfi xs),
       ch @ map (munge lfi) (content lfi xs))"
    using assms(5) by simp
  from logScan_lines [where fs=fs and l=l and container=container, OF assms(1,2,3) fw] k assms(4)
  have scan: "logScan l fs now container lfi ch =
           (ch @ map (munge lfi) (content lfi xs), Err ''Failed to find expected sentinels in log file'')"
    by auto
  then show ?thesis
    by (simp add: forward_scanned_def reportLoggingError_def writeSyntheticLogLine_def)
qed

text \<open>
  C3, witness: two content lines and one sentinel line.
\<close>

theorem missing_sentinels_witness:
  \<open>lines_of one_sentinel_file = [''{"a":1}'', ''{"a":2}'', logSentinelLine] \<and>
   logScan cfg0 (one_log ''c1'' one_sentinel_file) ''2018-06-01T00:00:00Z'' ''c1'' scenario_cursor [] =
     ([''{"a":1,"foo":"bar"}'', ''{"a":2,"foo":"bar"}''],
      Err ''Failed to find expected sentinels in log file'') \<and>
   forward_scanned cfg0 (one_log ''c1'' one_sentinel_file) ''2018-06-01T00:00:00Z''
       ''2018-06-01T00:00:01Z'' ''c1'' scenario_cursor [] =
     (Some \<lparr>status = 500, written = ''Failed to find expected sentinels in log file''\<rparr>,
      [''{"a":1,"foo":"bar"}'', ''{"a":2,"foo":"bar"}'',
       synthetic_line ''2018-06-01T00:00:01Z'' genericLogErrorMessage ''"foo":"bar"'', ''ACT1''])\<close>
proof -
  let ?xs = \<open>[''{"a":1}'', ''{"a":2}'', logSentinelLine]\<close>
  have off: "0 \<le> LastOffset scenario_cursor" by (simp add: scenario_cursor_def)
  have fit: "lines_fit (drop (nat (LastOffset scenario_cursor)) one_sentinel_file)"
    by (rule fit_small) (simp add: one_sentinel_file_def logSentinelLine_def maxTokenSize_def)
  have s: "SentinelledLogs scenario_cursor" by (simp add: scenario_cursor_def)
  have xs: "?xs = lines_of (drop (nat (LastOffset scenario_cursor)) one_sentinel_file)"
    by (simp add: scenario_cursor_def one_sentinel_lines)
  have c: \<open>content scenario_cursor ?xs = [''{"a":1}'', ''{"a":2}'']\<close>
    and k: "sentinels scenario_cursor ?xs = [logSentinelLine]"
    by (simp_all add: content_def sentinels_def is_sentinel_def scenario_cursor_def Contains_self)
       (simp_all add: logSentinelLine_def)
  have k2: "length (sentinels scenario_cursor ?xs) < 2" by (simp add: k)
  have ne: "[] \<notin> set ?xs" by (simp add: logSentinelLine_def)
  have tot: "total_bytes (content scenario_cursor ?xs) \<le> SizeLimit scenario_cursor"
    unfolding c by (simp add: total_bytes_def scenario_cursor_def)
  from missing_sentinels [where fs="one_log ''c1'' one_sentinel_file" and l=cfg0 and container="''c1''"
      and now="''2018-06-01T00:00:00Z''" and now'="''2018-06-01T00:00:01Z''" and ch="[]",
      OF one_log_open off fit s xs k2 ne tot]
  show ?thesis
    by (simp add: c one_sentinel_lines) (simp add: munge_def scenario_cursor_def)
qed

subsection \<open>C4: truncation\<close>

text \<open>
  C4.  The claim: for every scan with size limit \<open>L\<close> over content whose cumulative
  length first exceeds \<open>L\<close> at line \<open>k\<close>, the scan forwards the lines 1 to \<open>k\<close>, pushes one
  truncation notice and returns the end of the file.  \<open>logScan\<close> does so when no line
  before line \<open>k\<close> is empty and every line fits the scanner's buffer (\<open>truncation_run\<close>),
  and misses it where an empty line comes first: the slice \<open>logLine[:logLineLen-1]\<close> of the
  empty line is out of range, and the scan panics before it reaches line \<open>k\<close>.  Below, the
  log holds lines of 7, 0 and 7 bytes and the size limit is 10: the first two lines hold
  7 bytes together and the three hold 14, so that the limit is first exceeded at line 3.
  The scan sends line 1 and panics: lines 2 and 3 are not forwarded, no truncation
  notice is pushed and no offset is returned.
\<close>

theorem truncation_empty_line:
  \<open>lines_of empty_line_file = [''{"a":1}'', [], ''{"a":2}''] \<and>
   SizeLimit limit10_cursor = 10 \<and> \<not> SentinelledLogs limit10_cursor \<and>
   total_bytes (take 2 (lines_of empty_line_file)) = 7 \<and>
   total_bytes (take 3 (lines_of empty_line_file)) = 14 \<and>
   logScan cfg0 (one_log ''c1'' empty_line_file) ''2018-06-01T00:00:00Z'' ''c1'' limit10_cursor [] =
     ([''{"a":1,"foo":"bar"}''], Panic)\<close>
proof -
  let ?now = "''2018-06-01T00:00:00Z''"
  have off: "0 \<le> LastOffset limit10_cursor" by (simp add: limit10_cursor_def)
  have fit: "lines_fit (drop (nat (LastOffset limit10_cursor)) empty_line_file)"
    by (rule fit_small) (simp add: empty_line_file_def maxTokenSize_def)
  have fw: \<open>forward_lines limit10_cursor ?now
      (lines_of (drop (nat (LastOffset limit10_cursor)) empty_line_file)) 2 0 [] =
     (Crashed, 2, 7, [''{"a":1,"foo":"bar"}''])\<close>
    by (simp add: limit10_cursor_def empty_line_lines is_sentinel_def munge_def)
  from logScan_lines [where fs="one_log ''c1'' empty_line_file" and l=cfg0 and container="''c1''",
      OF one_log_open off fit fw]
  have scan: \<open>logScan cfg0 (one_log ''c1'' empty_line_file) ?now ''c1'' limit10_cursor [] =
     ([''{"a":1,"foo":"bar"}''], Panic)\<close> by auto
  have tot: "total_bytes (take 2 (lines_of empty_line_file)) = 7"
    "total_bytes (take 3 (lines_of empty_line_file)) = 14"
    by (simp_all add: empty_line_lines total_bytes_def)
  from scan tot show ?thesis by (simp add: empty_line_lines limit10_cursor_def)
qed

text \<open>
  C4, at this input, in the terms of the claim: the file ends at byte 17; the scan
  returns no offset, and the truncation notice for the limit 10 is not among the lines
  it has sent.
\<close>

theorem truncation_empty_line_witness:
  \<open>length empty_line_file = 17 \<and>
   snd (logScan cfg0 (one_log ''c1'' empty_line_file) ''2018-06-01T00:00:00Z'' ''c1'' limit10_cursor []) \<noteq>
     Ok (int (length empty_line_file)) \<and>
   synthetic_line ''2018-06-01T00:00:00Z'' (truncatedLogMessage (SizeLimit limit10_cursor))
       (EncodedLogLineMetadata limit10_cursor) \<notin>
     set (fst (logScan cfg0 (one_log ''c1'' empty_line_file) ''2018-06-01T00:00:00Z'' ''c1'' limit10_cursor []))\<close>
proof -
  from truncation_empty_line
  have scan: \<open>logScan cfg0 (one_log ''c1'' empty_line_file) ''2018-06-01T00:00:00Z'' ''c1'' limit10_cursor [] =
     ([''{"a":1,"foo":"bar"}''], Panic)\<close> by simp
  have len: "length empty_line_file = 17" by (simp add: empty_line_file_def)
  show ?thesis unfolding scan
    by (simp add: len synthetic_line_def truncatedLogMessage_def limit10_cursor_def)
qed

subsection \<open>C5: the resume offset\<close>




subsection \<open>C6: the log cannot be opened, or the seek fails\<close>

text \<open>
  C6.  When the log file of the container cannot be opened, or when the seek to
  \<open>LastOffset\<close> returns an error or an offset other than \<open>LastOffset\<close>, \<open>logScan\<close> returns
  an error and no offset, and the channel is as before: the scan has sent nothing.
\<close>

theorem open_or_seek_failure:
  assumes "fs (logFileName l container) = Inl e \<or>
           (fs (logFileName l container) = Inr bytes \<and>
            Seek \<lparr>contents = bytes, fpos = 0\<rparr> (LastOffset lfi) 0 = (f, offset, err) \<and>
            (offset \<noteq> LastOffset lfi \<or> err \<noteq> None))"
  shows "\<exists>msg. logScan l fs now container lfi ch = (ch, Err msg)"
  using assms by (auto simp: logScan_def)

text \<open>
  C6, witness: a negative offset, which the seek refuses, and a container with no log.
\<close>

theorem open_or_seek_failure_witness:
  "Seek \<lparr>contents = scenario_file, fpos = 0\<rparr> (LastOffset (scenario_cursor\<lparr>LastOffset := - 5\<rparr>)) 0 =
     (\<lparr>contents = scenario_file, fpos = 0\<rparr>, 0, Some ''invalid argument'') \<and>
   (\<exists>msg. logScan cfg0 (one_log ''c1'' scenario_file) ''2018-06-01T00:00:00Z'' ''c1''
            (scenario_cursor\<lparr>LastOffset := - 5\<rparr>) [] = ([], Err msg)) \<and>
   (\<exists>msg. logScan cfg0 (one_log ''c1'' scenario_file) ''2018-06-01T00:00:00Z'' ''c2''
            scenario_cursor [] = ([], Err msg))"
proof -
  let ?lfi = "scenario_cursor\<lparr>LastOffset := - 5\<rparr>"
  have sk: "Seek \<lparr>contents = scenario_file, fpos = 0\<rparr> (LastOffset ?lfi) 0 =
     (\<lparr>contents = scenario_file, fpos = 0\<rparr>, 0, Some ''invalid argument'')"
    by (simp add: Seek_def)
  have op: "one_log ''c1'' scenario_file (logFileName cfg0 ''c2'') =
      Inl (''open '' @ logFileName cfg0 ''c2'' @ '': no such file or directory'')"
    by (simp add: one_log_def logFileName_def)
  from open_or_seek_failure [where fs="one_log ''c1'' scenario_file" and l=cfg0 and container="''c1''"
      and lfi="?lfi" and bytes=scenario_file and ch="[]" and now="''2018-06-01T00:00:00Z''"]
    one_log_open [of "''c1''" scenario_file] sk
  have a: "\<exists>msg. logScan cfg0 (one_log ''c1'' scenario_file) ''2018-06-01T00:00:00Z'' ''c1'' ?lfi [] = ([], Err msg)"
    by simp
  from open_or_seek_failure [where fs="one_log ''c1'' scenario_file" and l=cfg0 and container="''c2''"
      and lfi="scenario_cursor" and ch="[]" and now="''2018-06-01T00:00:00Z''"] op
  have b: "\<exists>msg. logScan cfg0 (one_log ''c1'' scenario_file) ''2018-06-01T00:00:00Z'' ''c2'' scenario_cursor [] = ([], Err msg)"
    by simp
  from sk a b show ?thesis by blast
qed

subsection \<open>C7: the sink writer\<close>

text \<open>
  C7, as stated, fails.  The claim: after a rotation the next line is written to a newly
  created file distinct from the previous one.  The file is named after the clock in
  milliseconds, and \<open>os.Create\<close> truncates a file that exists.  Below, the threshold is 0
  and two lines arrive in the same millisecond: the second is written to the file of the
  first, and the first line is lost.
\<close>

theorem sink_rotation_counterexample:
  "logWriter_step (cfg0\<lparr>LogSinkSize := 0\<rparr>) (at_ms 1527811200000) ''a'' sink_start =
     Some \<lparr>sinkFile = None, sinkFileBytes = 2,
           disk = Map.empty(''/action-logs/userlogs-1527811200000.log'' \<mapsto> ''a'' @ [newline])\<rparr> \<and>
   logWriter_step (cfg0\<lparr>LogSinkSize := 0\<rparr>) (at_ms 1527811200000) ''b''
       \<lparr>sinkFile = None, sinkFileBytes = 2,
        disk = Map.empty(''/action-logs/userlogs-1527811200000.log'' \<mapsto> ''a'' @ [newline])\<rparr> =
     Some \<lparr>sinkFile = None, sinkFileBytes = 2,
           disk = Map.empty(''/action-logs/userlogs-1527811200000.log'' \<mapsto> ''b'' @ [newline])\<rparr> \<and>
   logWriter (cfg0\<lparr>LogSinkSize := 0\<rparr>) [(at_ms 1527811200000, ''a''), (at_ms 1527811200000, ''b'')] sink_start =
     Some \<lparr>sinkFile = None, sinkFileBytes = 2,
           disk = Map.empty(''/action-logs/userlogs-1527811200000.log'' \<mapsto> ''b'' @ [newline])\<rparr>"
proof -
  let ?l = "cfg0\<lparr>LogSinkSize := 0\<rparr>"
  let ?F = "''/action-logs/userlogs-1527811200000.log''"
  have one: "logWriter_step ?l (at_ms 1527811200000) ''a'' sink_start =
     Some \<lparr>sinkFile = None, sinkFileBytes = 2, disk = Map.empty(?F \<mapsto> ''a'' @ [newline])\<rparr>"
    by (simp add: logWriter_step_def sink_start_def at_ms_def sink_name_example Let_def)
  have two: "logWriter_step ?l (at_ms 1527811200000) ''b''
       \<lparr>sinkFile = None, sinkFileBytes = 2, disk = Map.empty(?F \<mapsto> ''a'' @ [newline])\<rparr> =
     Some \<lparr>sinkFile = None, sinkFileBytes = 2, disk = Map.empty(?F \<mapsto> ''b'' @ [newline])\<rparr>"
    by (simp add: logWriter_step_def at_ms_def sink_name_example Let_def)
  from one two show ?thesis by simp
qed

text \<open>
  C7, amended.  For every line that the writer processes without a failure of the
  operating system: the line and a newline are appended to the open file, or to a file
  that is first created, empty, under the name of the current time when none is open;
  no other file changes; the counter, reset to zero for a new file, grows by the bytes
  written; the file is closed and the handle cleared exactly when the counter exceeds the
  threshold, so that an open file never holds more bytes than the threshold and the
  counter is the length of the open file (\<open>sink_inv\<close>).  After such a rotation, the next
  line is written, alone, to a file created under the name of the current time, and the
  previous file (named after the time \<open>t\<close>) is left as it is, provided the clock no longer
  reads \<open>t\<close>.
\<close>

theorem sink_writer_step:
  assumes "logWriter_step l env line st = Some st'"
  shows "disk st' (sink_target l env st) = Some (sink_before st @ line @ [newline]) \<and>
         (\<forall>p. p \<noteq> sink_target l env st \<longrightarrow> disk st' p = disk st p) \<and>
         (sinkFile st = None \<longrightarrow>
            sink_target l env st = sink_name l (now_ms env) \<and> sink_before st = [] \<and>
            sinkFileBytes st' = int (length line) + 1) \<and>
         (sinkFile st \<noteq> None \<longrightarrow>
            sinkFile st = Some (sink_target l env st) \<and>
            sinkFileBytes st' = sinkFileBytes st + int (length line) + 1) \<and>
         sinkFile st' = (if LogSinkSize l < sinkFileBytes st' then None else Some (sink_target l env st)) \<and>
         (sink_inv l st \<longrightarrow> sink_inv l st') \<and>
         (\<forall>env' line' st'' t.
            LogSinkSize l < sinkFileBytes st' \<and> logWriter_step l env' line' st' = Some st'' \<and>
            sink_target l env st = sink_name l t \<and> now_ms env' \<noteq> t \<longrightarrow>
              sink_target l env' st' = sink_name l (now_ms env') \<and>
              sink_target l env' st' \<noteq> sink_target l env st \<and>
              disk st'' (sink_target l env' st') = Some (line' @ [newline]) \<and>
              disk st'' (sink_target l env st) = disk st' (sink_target l env st))"
proof -
  note eff = logWriter_step_effect [OF assms]
  have next_line: "sink_target l env' st' = sink_name l (now_ms env') \<and>
              sink_target l env' st' \<noteq> sink_target l env st \<and>
              disk st'' (sink_target l env' st') = Some (line' @ [newline]) \<and>
              disk st'' (sink_target l env st) = disk st' (sink_target l env st)"
    if over: "LogSinkSize l < sinkFileBytes st'" and step: "logWriter_step l env' line' st' = Some st''"
      and name: "sink_target l env st = sink_name l t" and time: "now_ms env' \<noteq> t"
    for env' line' st'' t
  proof -
    from eff(3) over have closed: "sinkFile st' = None" by simp
    then have tgt: "sink_target l env' st' = sink_name l (now_ms env')" and b: "sink_before st' = []"
      by (simp_all add: sink_target_def sink_before_def)
    from time name sink_name_inj [of l "now_ms env'" t]
    have ne: "sink_name l (now_ms env') \<noteq> sink_target l env st" by auto
    from logWriter_step_effect(1) [OF step] tgt b ne show ?thesis by simp
  qed
  have closed: "sinkFile st = None \<longrightarrow>
            sink_target l env st = sink_name l (now_ms env) \<and> sink_before st = [] \<and>
            sinkFileBytes st' = int (length line) + 1"
    using eff(2) by (simp add: sink_target_def sink_before_def)
  have opened: "sinkFile st \<noteq> None \<longrightarrow>
            sinkFile st = Some (sink_target l env st) \<and>
            sinkFileBytes st' = sinkFileBytes st + int (length line) + 1"
    using eff(2) by (auto simp: sink_target_def)
  have written: "disk st' (sink_target l env st) = Some (sink_before st @ line @ [newline])"
    and frame: "\<forall>p. p \<noteq> sink_target l env st \<longrightarrow> disk st' p = disk st p"
    using eff(1) by simp_all
  have inv: "sink_inv l st \<longrightarrow> sink_inv l st'"
    using sink_inv_step [OF assms] by blast
  from written frame closed opened eff(3) inv next_line show ?thesis by blast
qed

text \<open>
  C7, witness: the threshold 10, a line of 11 bytes, and a second line one millisecond
  later.
\<close>

theorem sink_writer_step_witness:
  "\<exists>st1 st2.
     logWriter_step (cfg0\<lparr>LogSinkSize := 10\<rparr>) (at_ms 1527811200000) ''hello world'' sink_start = Some st1 \<and>
     disk st1 ''/action-logs/userlogs-1527811200000.log'' = Some (''hello world'' @ [newline]) \<and>
     sinkFileBytes st1 = 12 \<and> sinkFile st1 = None \<and>
     logWriter_step (cfg0\<lparr>LogSinkSize := 10\<rparr>) (at_ms 1527811200001) ''next'' st1 = Some st2 \<and>
     disk st2 ''/action-logs/userlogs-1527811200001.log'' = Some (''next'' @ [newline]) \<and>
     disk st2 ''/action-logs/userlogs-1527811200000.log'' = Some (''hello world'' @ [newline]) \<and>
     sinkFile st2 = Some ''/action-logs/userlogs-1527811200001.log'' \<and>
     sink_inv (cfg0\<lparr>LogSinkSize := 10\<rparr>) st1 \<and> sink_inv (cfg0\<lparr>LogSinkSize := 10\<rparr>) st2"
proof -
  let ?l = "cfg0\<lparr>LogSinkSize := 10\<rparr>"
  let ?F0 = "''/action-logs/userlogs-1527811200000.log''"
  let ?F1 = "''/action-logs/userlogs-1527811200001.log''"
  obtain st1 where one: "logWriter_step ?l (at_ms 1527811200000) ''hello world'' sink_start = Some st1"
    using logWriter_step_total [of "at_ms 1527811200000" ?l "''hello world''" sink_start]
    by (auto simp: at_ms_def)
  obtain st2 where two: "logWriter_step ?l (at_ms 1527811200001) ''next'' st1 = Some st2"
    using logWriter_step_total [of "at_ms 1527811200001" ?l "''next''" st1]
    by (auto simp: at_ms_def)
  have t0: "sink_target ?l (at_ms 1527811200000) sink_start = ?F0" "sink_before sink_start = []"
    by (simp_all add: sink_target_def sink_before_def sink_start_def at_ms_def sink_name_example)
  note s1 = sink_writer_step [OF one]
  from s1 t0 have d1: "disk st1 ?F0 = Some (''hello world'' @ [newline])" by simp
  from s1 t0 have b1: "sinkFileBytes st1 = 12" by (simp add: sink_start_def)
  from s1 b1 have c1: "sinkFile st1 = None" by (simp add: cfg0_def)
  have over: "LogSinkSize ?l < sinkFileBytes st1" by (simp add: b1)
  have name: "sink_target ?l (at_ms 1527811200000) sink_start = sink_name ?l 1527811200000"
    by (simp add: t0 sink_name_example)
  have time: "now_ms (at_ms 1527811200001) \<noteq> 1527811200000" by (simp add: at_ms_def)
  from s1 over two name time
  have nxt: "sink_target ?l (at_ms 1527811200001) st1 = sink_name ?l (now_ms (at_ms 1527811200001)) \<and>
      sink_target ?l (at_ms 1527811200001) st1 \<noteq> sink_target ?l (at_ms 1527811200000) sink_start \<and>
      disk st2 (sink_target ?l (at_ms 1527811200001) st1) = Some (''next'' @ [newline]) \<and>
      disk st2 (sink_target ?l (at_ms 1527811200000) sink_start) =
        disk st1 (sink_target ?l (at_ms 1527811200000) sink_start)"
    by blast
  from nxt have "sink_target ?l (at_ms 1527811200001) st1 = sink_name ?l (now_ms (at_ms 1527811200001))"
    by blast
  then have t1: "sink_target ?l (at_ms 1527811200001) st1 = ?F1"
    by (simp add: at_ms_def sink_name_example)
  from nxt have "disk st2 (sink_target ?l (at_ms 1527811200001) st1) = Some (''next'' @ [newline])"
    and "disk st2 (sink_target ?l (at_ms 1527811200000) sink_start) =
        disk st1 (sink_target ?l (at_ms 1527811200000) sink_start)" by blast+
  then have d2: "disk st2 ?F1 = Some (''next'' @ [newline])"
    "disk st2 ?F0 = Some (''hello world'' @ [newline])"
    unfolding t1 t0 using d1 by simp_all
  from logWriter_step_effect(2,3) [OF two] c1 t1 have f2: "sinkFile st2 = Some ?F1"
    by (simp add: cfg0_def)
  from s1 sink_inv_start [of ?l] have i1: "sink_inv ?l st1" by blast
  from sink_writer_step [OF two] i1 have i2: "sink_inv ?l st2" by blast
  from one two d1 b1 c1 d2 f2 i1 i2 show ?thesis by blast
qed

subsection \<open>C8: resuming a scan\<close>

text \<open>
  C8.  The claim: a second scan from the offset returned by the first forwards no
  content line when the file has not grown.  The comment of the handler says that the
  offset returned is the ending offset of the log file, to be used in the next call, and
  on truncation \<open>logScan\<close> seeks to the end of the file.  Where the loop stops at the
  second sentinel line, \<open>logScan\<close> returns the offset of the file handle, which the
  scanner has moved to the end of the last chunk it read; that is neither the end of the
  file nor the end of the last line consumed, and may lie inside a line.  Below, the log
  holds two sentinel lines, which end at byte 132, and then one line that ends at
  byte 4243, the end of the file.  The first scan returns 4096; the second scan, from
  4096, forwards the last 146 bytes of the third line as a content line (and then fails,
  as it finds no sentinel).
\<close>

theorem resumption_torn_line:
  \<open>length long_file = 4243 \<and>
   line_end long_file 0 2 = 132 \<and> line_end long_file 0 3 = 4243 \<and>
   logScan cfg0 (one_log ''c1'' long_file) ''2018-06-01T00:00:00Z'' ''c1'' scenario_cursor [] =
     ([''ACT1''], Ok 4096) \<and>
   drop 4096 long_file = replicate 144 CHR ''x'' @ ''"}'' @ [newline] \<and>
   logScan cfg0 (one_log ''c1'' long_file) ''2018-06-01T00:00:01Z'' ''c1''
       (scenario_cursor\<lparr>LastOffset := 4096\<rparr>) [''ACT1''] =
     ([''ACT1'', replicate 144 CHR ''x'' @ ''","foo":"bar"}''],
      Err ''Failed to find expected sentinels in log file'')\<close>
  using long_first_scan [of "''2018-06-01T00:00:00Z''" "[]"]
    long_second_scan [of "''2018-06-01T00:00:01Z''" "[''ACT1'']"] long_length long_line_ends
    long_rest
  by (simp add: long_tail_def)

text \<open>
  C8, at this input, in the terms of the claim: the offset returned by the first scan
  lies after the end of the second line and before the end of the file, and the second
  scan, which starts with the channel as the first left it, sends a line.
\<close>

theorem resumption_torn_line_witness:
  \<open>snd (logScan cfg0 (one_log ''c1'' long_file) ''2018-06-01T00:00:00Z'' ''c1'' scenario_cursor []) = Ok 4096 \<and>
   line_end long_file 0 2 < 4096 \<and> 4096 < length long_file \<and>
   length (fst (logScan cfg0 (one_log ''c1'' long_file) ''2018-06-01T00:00:01Z'' ''c1''
       (scenario_cursor\<lparr>LastOffset := 4096\<rparr>)
       (fst (logScan cfg0 (one_log ''c1'' long_file) ''2018-06-01T00:00:00Z'' ''c1'' scenario_cursor [])))) =
   Suc (length (fst (logScan cfg0 (one_log ''c1'' long_file) ''2018-06-01T00:00:00Z'' ''c1'' scenario_cursor [])))\<close>
  using resumption_torn_line by simp

subsection \<open>C9: empty lines\<close>

text \<open>
  C9.  When the scan reaches an empty content line (fewer than two sentinel lines before
  it, the size limit not exceeded, no empty line before), the slice
  \<open>logLine[:logLineLen-1]\<close> is out of range: the scan panics, having sent the content lines
  before.  When no line of the region is empty, the scan does not panic.  The lines are
  those the scanner returns: without the newline and without a carriage return before it.
\<close>

theorem empty_line_panics:
  "(fs (logFileName l container) = Inr bytes \<and> 0 \<le> LastOffset lfi \<and>
    lines_fit (drop (nat (LastOffset lfi)) bytes) \<and>
    lines_of (drop (nat (LastOffset lfi)) bytes) = pre @ [] # post \<and>
    length (sentinels lfi pre) < 2 \<and> [] \<notin> set (content lfi pre) \<and>
    total_bytes (content lfi pre) \<le> SizeLimit lfi
    \<longrightarrow> logScan l fs now container lfi ch = (ch @ map (munge lfi) (content lfi pre), Panic)) \<and>
   ((\<forall>bytes'. fs (logFileName l container) = Inr bytes' \<longrightarrow>
        [] \<notin> set (lines_of (drop (nat (LastOffset lfi)) bytes')))
    \<longrightarrow> snd (logScan l fs now container lfi ch) \<noteq> Panic)"
proof (intro conjI impI)
  assume a: "fs (logFileName l container) = Inr bytes \<and> 0 \<le> LastOffset lfi \<and>
    lines_fit (drop (nat (LastOffset lfi)) bytes) \<and>
    lines_of (drop (nat (LastOffset lfi)) bytes) = pre @ [] # post \<and>
    length (sentinels lfi pre) < 2 \<and> [] \<notin> set (content lfi pre) \<and>
    total_bytes (content lfi pre) \<le> SizeLimit lfi"
  then have k: "int (length (sentinels lfi pre)) < 2" by simp
  from a have "forward_lines lfi now (lines_of (drop (nat (LastOffset lfi)) bytes)) 2 0 ch =
      forward_lines lfi now ([] # post) (2 - int (length (sentinels lfi pre)))
        (0 + total_bytes (content lfi pre)) (ch @ map (munge lfi) (content lfi pre))"
    using forward_lines_prefix [OF k, of 0 now "[] # post" ch] by simp
  also have "\<dots> = (Crashed, 2 - int (length (sentinels lfi pre)), 0 + total_bytes (content lfi pre),
      ch @ map (munge lfi) (content lfi pre))"
    using k by (simp add: empty_not_sentinel)
  finally have fw: "forward_lines lfi now (lines_of (drop (nat (LastOffset lfi)) bytes)) 2 0 ch =
      (Crashed, 2 - int (length (sentinels lfi pre)), 0 + total_bytes (content lfi pre),
       ch @ map (munge lfi) (content lfi pre))" .
  from a have op: "fs (logFileName l container) = Inr bytes" and off: "0 \<le> LastOffset lfi"
    and fit: "lines_fit (drop (nat (LastOffset lfi)) bytes)" by simp_all
  from logScan_lines [where fs=fs and l=l and container=container, OF op off fit fw]
  show "logScan l fs now container lfi ch = (ch @ map (munge lfi) (content lfi pre), Panic)"
    by auto
next
  assume a: "\<forall>bytes'. fs (logFileName l container) = Inr bytes' \<longrightarrow>
        [] \<notin> set (lines_of (drop (nat (LastOffset lfi)) bytes'))"
  show "snd (logScan l fs now container lfi ch) \<noteq> Panic"
  proof
    assume "snd (logScan l fs now container lfi ch) = Panic"
    then obtain ch' where "logScan l fs now container lfi ch = (ch', Panic)"
      by (cases "logScan l fs now container lfi ch") auto
    from logScan_panic_line [OF this] a show False by auto
  qed
qed

text \<open>
  C9, witness: a log whose second line is empty, and the scenario of C2, which has no
  empty line.
\<close>

theorem empty_line_panics_witness:
  \<open>lines_of empty_line_file = [''{"a":1}''] @ [] # [''{"a":2}''] \<and>
   logScan cfg0 (one_log ''c1'' empty_line_file) ''2018-06-01T00:00:00Z'' ''c1'' scenario_cursor [] =
     ([''{"a":1,"foo":"bar"}''], Panic) \<and>
   [] \<notin> set (lines_of scenario_file) \<and>
   snd (logScan cfg0 (one_log ''c1'' scenario_file) ''2018-06-01T00:00:00Z'' ''c1'' scenario_cursor []) \<noteq> Panic\<close>
proof -
  let ?now = "''2018-06-01T00:00:00Z''"
  have off: "0 \<le> LastOffset scenario_cursor" "nat (LastOffset scenario_cursor) = 0"
    by (simp_all add: scenario_cursor_def)
  have fit: "lines_fit (drop (nat (LastOffset scenario_cursor)) empty_line_file)"
    by (rule fit_small) (simp add: empty_line_file_def maxTokenSize_def)
  have pre: \<open>length (sentinels scenario_cursor [''{"a":1}'']) < 2\<close>
    \<open>[] \<notin> set (content scenario_cursor [''{"a":1}''])\<close>
    \<open>total_bytes (content scenario_cursor [''{"a":1}'']) \<le> SizeLimit scenario_cursor\<close>
    \<open>map (munge scenario_cursor) (content scenario_cursor [''{"a":1}'']) = [''{"a":1,"foo":"bar"}'']\<close>
    by (simp_all add: sentinels_def content_def is_sentinel_def total_bytes_def munge_def
        scenario_cursor_def logSentinelLine_def)
  from empty_line_panics [where fs="one_log ''c1'' empty_line_file" and l=cfg0 and container="''c1''"
      and lfi=scenario_cursor and bytes=empty_line_file and pre=\<open>[''{"a":1}'']\<close> and post=\<open>[''{"a":2}'']\<close>
      and now="?now" and ch="[]"]
    one_log_open [of "''c1''" empty_line_file] off fit pre empty_line_lines
  have a: \<open>logScan cfg0 (one_log ''c1'' empty_line_file) ?now ''c1'' scenario_cursor [] =
     ([''{"a":1,"foo":"bar"}''], Panic)\<close> by simp
  have ne: "[] \<notin> set (lines_of scenario_file)" by (simp add: scenario_lines logSentinelLine_def)
  have "\<forall>bytes'. one_log ''c1'' scenario_file (logFileName cfg0 ''c1'') = Inr bytes' \<longrightarrow>
        [] \<notin> set (lines_of (drop (nat (LastOffset scenario_cursor)) bytes'))"
    using ne off by (simp add: one_log_open)
  with empty_line_panics [where fs="one_log ''c1'' scenario_file" and l=cfg0 and container="''c1''"
      and lfi=scenario_cursor and now="?now" and ch="[]"]
  have b: "snd (logScan cfg0 (one_log ''c1'' scenario_file) ?now ''c1'' scenario_cursor []) \<noteq> Panic"
    by blast
  from a b ne empty_line_lines show ?thesis by blast
qed

subsection \<open>C10: the request body is never parsed\<close>

text \<open>
  C10.  \<open>parseLogForwardInfo\<close> passes a nil pointer to \<open>json.Unmarshal\<close>, which returns an
  error for every body, whatever the decoder.  So the handler answers every request with
  the status 400 and the message of the error; nothing is sent on the channel, and the
  answer does not depend on the file system: \<open>logScan\<close> is not called.
\<close>

theorem parse_always_fails:
  "(\<exists>msg. parseLogForwardInfo J r = Inl msg \<and>
          ForwardLogsFromUserAction l J fs now now' r ch = (Some \<lparr>status = 400, written = msg\<rparr>, ch))"
proof (cases "body r")
  case (Inl e)
  then show ?thesis
    by (simp add: parseLogForwardInfo_def ForwardLogsFromUserAction_def reportLoggingError_def)
next
  case (Inr b)
  from Unmarshal_nil [of J b] obtain e where "Unmarshal J b None = (Some e, None)" by blast
  with Inr show ?thesis
    by (simp add: parseLogForwardInfo_def ForwardLogsFromUserAction_def reportLoggingError_def)
qed

text \<open>
  C10, witness: a body with every field of \<open>LogForwardInfo\<close>, and a decoder that accepts
  every input.
\<close>

theorem parse_always_fails_witness:
  "ForwardLogsFromUserAction cfg0 lax_decoder (one_log ''c1'' scenario_file)
       ''2018-06-01T00:00:00Z'' ''2018-06-01T00:00:01Z'' scenario_request [] =
     (Some \<lparr>status = 400,
            written = ''Error unmarshalling request body: json: Unmarshal(nil *main.LogForwardInfo)''\<rparr>,
      [])"
proof -
  have "parseLogForwardInfo lax_decoder scenario_request =
      Inl ''Error unmarshalling request body: json: Unmarshal(nil *main.LogForwardInfo)''"
    by (simp add: parseLogForwardInfo_def Unmarshal_def lax_decoder_def scenario_request_def)
  with parse_always_fails [of lax_decoder scenario_request cfg0 "one_log ''c1'' scenario_file"
      "''2018-06-01T00:00:00Z''" "''2018-06-01T00:00:01Z''" "[]"]
  show ?thesis by auto
qed

end
